theory Spec2Isabelle
  imports Complex_Main "HOL-Library.Multiset" "HOL-Library.AList"
begin

section \<open>Analytics of the request log: data model\<close>

text \<open>
  The route \<^verbatim>\<open>/manage/analytics\<close> reads the stored request log and derives three views
  from it: \<^verbatim>\<open>organizeData\<close> (request and error counts per time bucket),
  \<^verbatim>\<open>createSankeyData\<close> (the flow graph) and \<^verbatim>\<open>createRadarChartData\<close> (the health
  metrics). A log entry is read through the fields \<^verbatim>\<open>ts\<close>, \<^verbatim>\<open>hostname\<close>, \<^verbatim>\<open>path\<close>,
  \<^verbatim>\<open>method\<close>, \<^verbatim>\<open>response.status\<close>, \<^verbatim>\<open>response_time\<close> and
  \<^verbatim>\<open>session_analytics.ip_address\<close>; the nested ones are flattened here and \<^verbatim>\<open>method\<close>
  is \<open>http_method\<close>. \<^verbatim>\<open>ts\<close> is in whole seconds since the epoch; the status is an integer
  and the response time a finite number.
\<close>

record log_record =
  ts :: int
  hostname :: string
  path :: string
  http_method :: string
  response_status :: int
  response_time :: rat
  ip_address :: string

section \<open>JavaScript numbers\<close>

text \<open>
  A JavaScript number is a finite value, one of the two infinities, or NaN. Division never
  raises: a finite non-zero value divided by zero is an infinity, and zero divided by zero is
  NaN. Finite values are carried as exact rationals: the rounding of binary floating point to
  53 bits, overflow to an infinity, underflow to zero and the sign of zero are left out. What
  is proved below of a value is therefore that it is NaN, that it is an infinity (of either
  sign), or a bound or an exact value that the rounding leaves alone; nothing is concluded
  from a value being finite here, since the double may overflow where the rational does not.
\<close>

datatype jsnum = Fin rat | PInf | NInf | NaN

fun jneg :: "jsnum \<Rightarrow> jsnum" where
  "jneg (Fin a) = Fin (- a)"
| "jneg PInf = NInf"
| "jneg NInf = PInf"
| "jneg NaN = NaN"

fun jadd :: "jsnum \<Rightarrow> jsnum \<Rightarrow> jsnum" where
  "jadd NaN _ = NaN"
| "jadd _ NaN = NaN"
| "jadd (Fin a) (Fin b) = Fin (a + b)"
| "jadd PInf NInf = NaN"
| "jadd NInf PInf = NaN"
| "jadd PInf _ = PInf"
| "jadd _ PInf = PInf"
| "jadd NInf _ = NInf"
| "jadd _ NInf = NInf"

definition jsub :: "jsnum \<Rightarrow> jsnum \<Rightarrow> jsnum" where
  "jsub a b = jadd a (jneg b)"

fun jmul :: "jsnum \<Rightarrow> jsnum \<Rightarrow> jsnum" where
  "jmul NaN _ = NaN"
| "jmul _ NaN = NaN"
| "jmul (Fin a) (Fin b) = Fin (a * b)"
| "jmul (Fin a) PInf = (if 0 < a then PInf else if a < 0 then NInf else NaN)"
| "jmul (Fin a) NInf = (if 0 < a then NInf else if a < 0 then PInf else NaN)"
| "jmul PInf (Fin b) = (if 0 < b then PInf else if b < 0 then NInf else NaN)"
| "jmul NInf (Fin b) = (if 0 < b then NInf else if b < 0 then PInf else NaN)"
| "jmul PInf PInf = PInf"
| "jmul NInf NInf = PInf"
| "jmul PInf NInf = NInf"
| "jmul NInf PInf = NInf"

fun jdiv :: "jsnum \<Rightarrow> jsnum \<Rightarrow> jsnum" where
  "jdiv NaN _ = NaN"
| "jdiv _ NaN = NaN"
| "jdiv (Fin a) (Fin b) =
     (if b \<noteq> 0 then Fin (a / b)
      else if 0 < a then PInf else if a < 0 then NInf else NaN)"
| "jdiv (Fin a) PInf = Fin 0"
| "jdiv (Fin a) NInf = Fin 0"
| "jdiv PInf (Fin b) = (if 0 \<le> b then PInf else NInf)"
| "jdiv NInf (Fin b) = (if 0 \<le> b then NInf else PInf)"
| "jdiv PInf PInf = NaN"
| "jdiv PInf NInf = NaN"
| "jdiv NInf PInf = NaN"
| "jdiv NInf NInf = NaN"

text \<open>The comparisons \<^verbatim>\<open>a > b\<close> and \<^verbatim>\<open>a <= b\<close>: both are false when an operand is NaN.\<close>

fun jgt :: "jsnum \<Rightarrow> jsnum \<Rightarrow> bool" where
  "jgt NaN _ = False"
| "jgt _ NaN = False"
| "jgt (Fin a) (Fin b) = (b < a)"
| "jgt PInf PInf = False"
| "jgt PInf _ = True"
| "jgt NInf _ = False"
| "jgt (Fin a) PInf = False"
| "jgt (Fin a) NInf = True"


text \<open>
  \<^verbatim>\<open>parseFloat(x.toFixed(d))\<close>: \<^verbatim>\<open>toFixed\<close> writes NaN and the infinities by name, a value of
  magnitude at least \<open>10\<^sup>2\<^sup>1\<close> as \<^verbatim>\<open>String(x)\<close>, and any other value with \<open>d\<close> decimals,
  taking the integer \<open>n\<close> with \<open>n / 10\<^sup>d\<close> nearest to the magnitude (the larger one on a tie);
  \<^verbatim>\<open>parseFloat\<close> reads the number back.
\<close>

definition roundFixed :: "nat \<Rightarrow> jsnum \<Rightarrow> jsnum" where
  "roundFixed d x =
     (case x of
        Fin q \<Rightarrow>
          if 10 ^ 21 \<le> \<bar>q\<bar> then Fin q
          else Fin (sgn q * of_int \<lfloor>\<bar>q\<bar> * 10 ^ d + 1 / 2\<rfloor> / 10 ^ d)
      | _ \<Rightarrow> x)"

text \<open>
  The two renderings of a number as text, \<^verbatim>\<open>x.toFixed(d)\<close> and the implicit
  \<^verbatim>\<open>String(x)\<close> of string concatenation, are parameters of the model: they only feed the
  display fields.
\<close>

record number_format =
  toFixed :: "jsnum \<Rightarrow> nat \<Rightarrow> string"
  toString :: "jsnum \<Rightarrow> string"

section \<open>createRadarChartData\<close>

record healthMetrics =
  Builders :: rat
  Inventory :: rat
  Latency :: rat
  RPS :: rat
  Success :: rat
  Uptime :: rat

record metric =
  subject :: string
  description :: string
  actual :: string
  metric_value :: jsnum
  cap :: jsnum

text \<open>
  The only statement of \<^verbatim>\<open>createRadarChartData\<close> that can throw is the destructuring of
  \<^verbatim>\<open>sera_settings.systemSettings.seraSettings.healthMetrics\<close>, a \<^verbatim>\<open>TypeError\<close> when the
  settings document or a level of that path is missing (\<open>None\<close> here).
\<close>

datatype js_error = TypeError

definition totalRequests :: "log_record list \<Rightarrow> jsnum" where
  "totalRequests node_data = Fin (of_nat (length node_data))"

definition successfulRequests :: "log_record list \<Rightarrow> jsnum" where
  "successfulRequests node_data =
     Fin (of_nat (length (filter (\<lambda>item. response_status item = 200) node_data)))"

definition uptime :: "log_record list \<Rightarrow> jsnum" where
  "uptime node_data =
     jmul (jdiv (jsub (totalRequests node_data)
                   (Fin (of_nat (length (filter (\<lambda>item. 400 \<le> response_status item) node_data)))))
             (totalRequests node_data))
       (Fin 100)"

definition latency :: "log_record list \<Rightarrow> jsnum" where
  "latency node_data =
     jdiv (Fin (foldl (\<lambda>acc item. acc + response_time item) 0 node_data))
       (totalRequests node_data)"

definition timePeriodInSeconds :: "rat \<Rightarrow> rat \<Rightarrow> jsnum" where
  "timePeriodInSeconds startTimestamp endTimestamp = Fin (endTimestamp - startTimestamp)"

definition rps :: "log_record list \<Rightarrow> rat \<Rightarrow> rat \<Rightarrow> jsnum" where
  "rps node_data startTimestamp endTimestamp =
     jmul (jdiv (totalRequests node_data) (timePeriodInSeconds startTimestamp endTimestamp))
       (Fin 100)"

definition successRate :: "log_record list \<Rightarrow> jsnum" where
  "successRate node_data =
     jmul (jdiv (successfulRequests node_data) (totalRequests node_data)) (Fin 100)"

definition latencyRatio :: "healthMetrics \<Rightarrow> log_record list \<Rightarrow> jsnum" where
  "latencyRatio hm node_data = jmul (jdiv (Fin (Latency hm)) (latency node_data)) (Fin 100)"

definition createRadarChartData ::
  "number_format \<Rightarrow> log_record list \<Rightarrow> rat \<Rightarrow> rat \<Rightarrow> healthMetrics option
     \<Rightarrow> js_error + metric list" where
  "createRadarChartData nf node_data startTimestamp endTimestamp sera_settings =
     (case sera_settings of
        None \<Rightarrow> Inl TypeError
      | Some hm \<Rightarrow>
          Inr
           [\<lparr>subject = ''RPS'',
             description = ''Percent of overall RPS'',
             actual = toFixed nf (rps node_data startTimestamp endTimestamp) 5 @ '' rps'',
             metric_value =
               jmul (jdiv (roundFixed 5 (rps node_data startTimestamp endTimestamp)) (Fin (RPS hm)))
                 (Fin 100),
             cap = Fin 100\<rparr>,
            \<lparr>subject = ''Uptime'',
             description = ''Percent of time since last restart that this has been available'',
             actual =
               toString nf (jmul (jdiv (uptime node_data) (Fin (Uptime hm))) (Fin 100)) @ ''%'',
             metric_value = jmul (jdiv (uptime node_data) (Fin (Uptime hm))) (Fin 100),
             cap = Fin 100\<rparr>,
            \<lparr>subject = ''Success'',
             description = ''Percent of responses that are 200 (Status Ok)'',
             actual = toString nf (successRate node_data) @ ''%'',
             metric_value = successRate node_data,
             cap = Fin 100\<rparr>,
            \<lparr>subject = ''Inventory'',
             description = ''Percent of OAS documentation that have descriptions'',
             actual = ''100%'',
             metric_value = Fin 100,
             cap = Fin (Inventory hm)\<rparr>,
            \<lparr>subject = ''Builders'',
             description = ''Percent of endpoints that have builders setup'',
             actual = ''100%'',
             metric_value = Fin 100,
             cap = Fin (Builders hm)\<rparr>,
            \<lparr>subject = ''Latency'',
             description =
               ''Average Latency of requests that are above '' @ toString nf (Fin (Latency hm))
                 @ ''ms'',
             actual = toFixed nf (latency node_data) 2 @ ''ms'',
             metric_value =
               (if jgt (latencyRatio hm node_data) (Fin 100) then Fin 100
                else roundFixed 2 (latencyRatio hm node_data)),
             cap = Fin 100\<rparr>])"

text \<open>The value reported under a subject.\<close>

definition valueOf :: "string \<Rightarrow> js_error + metric list \<Rightarrow> jsnum list" where
  "valueOf s r =
     (case r of Inl _ \<Rightarrow> [] | Inr ms \<Rightarrow> map metric_value (filter (\<lambda>m. subject m = s) ms))"

text \<open>Concrete inputs for the closed instances below.\<close>

definition blank_format :: number_format where
  "blank_format = \<lparr>toFixed = (\<lambda>x d. []), toString = (\<lambda>x. [])\<rparr>"

definition settings100 :: healthMetrics where
  "settings100 =
     \<lparr>Builders = 100, Inventory = 100, Latency = 100, RPS = 100, Success = 100, Uptime = 100\<rparr>"

definition entry0 :: log_record where
  "entry0 =
     \<lparr>ts = 0, hostname = ''h'', path = ''/p'', http_method = ''GET'', response_status = 200,
      response_time = 50, ip_address = ''a''\<rparr>"

section \<open>JavaScript objects used as dictionaries\<close>

text \<open>
  \<^verbatim>\<open>createSankeyData\<close> keeps its two indexes in object literals, \<^verbatim>\<open>nodeIndex = {}\<close> and
  \<^verbatim>\<open>linkIndex = {}\<close>, and tests a key with \<^verbatim>\<open>obj[key] === undefined\<close>. A read \<^verbatim>\<open>obj[key]\<close>
  that finds no own property goes on to the prototype, \<^verbatim>\<open>Object.prototype\<close>, whose members
  are listed below: for these twelve keys the read is never \<^verbatim>\<open>undefined\<close>, whatever was
  stored. The own properties are a map; a read gives the own value, the inherited member,
  or \<^verbatim>\<open>undefined\<close>.
\<close>

definition object_prototype_keys :: "string list" where
  "object_prototype_keys =
     [''constructor'', ''__defineGetter__'', ''__defineSetter__'', ''hasOwnProperty'',
      ''__lookupGetter__'', ''__lookupSetter__'', ''isPrototypeOf'', ''propertyIsEnumerable'',
      ''toString'', ''valueOf'', ''__proto__'', ''toLocaleString'']"

datatype 'a js_lookup = Own 'a | Proto string | Undefined

definition js_get :: "(string \<rightharpoonup> 'a) \<Rightarrow> string \<Rightarrow> 'a js_lookup" where
  "js_get obj key =
     (case obj key of
        Some v \<Rightarrow> Own v
      | None \<Rightarrow> if key \<in> set object_prototype_keys then Proto key else Undefined)"

text \<open>
  The template literal \<^verbatim>\<open>`${source}-${target}`\<close> writes a number in decimal, the inherited
  functions as \<^verbatim>\<open>function toString() { [native code] }\<close> (\<^verbatim>\<open>constructor\<close> is the function
  \<^verbatim>\<open>Object\<close>), the prototype object itself (\<^verbatim>\<open>__proto__\<close>) as \<^verbatim>\<open>[object Object]\<close>, and
  \<^verbatim>\<open>undefined\<close> by name.
\<close>

definition digit_char :: "nat \<Rightarrow> char" where
  "digit_char d = ''0123456789'' ! d"

fun dec :: "nat \<Rightarrow> string" where
  "dec n = (if n < 10 then [digit_char n] else dec (n div 10) @ [digit_char (n mod 10)])"

declare dec.simps [simp del]

fun render :: "nat js_lookup \<Rightarrow> string" where
  "render (Own n) = dec n"
| "render (Proto k) =
     (if k = ''__proto__'' then ''[object Object]''
      else ''function '' @ (if k = ''constructor'' then ''Object'' else k)
             @ ''() { [native code] }'')"
| "render Undefined = ''undefined''"

section \<open>createSankeyData\<close>

text \<open>
  A node is \<^verbatim>\<open>{ name, index }\<close> and a link \<^verbatim>\<open>{ source, target, value }\<close> (the field \<^verbatim>\<open>value\<close>
  is \<open>link_value\<close> here). \<^verbatim>\<open>source\<close> and \<^verbatim>\<open>target\<close> hold what \<^verbatim>\<open>getNodeIndex\<close> returned, that
  is, what the read \<^verbatim>\<open>nodeIndex[name]\<close> gave. The four local variables of
  \<^verbatim>\<open>createSankeyData\<close> that its two helpers close over are the state.
\<close>

record node =
  name :: string
  index :: nat

record link =
  source :: "nat js_lookup"
  target :: "nat js_lookup"
  link_value :: nat

record sankey =
  nodes :: "node list"
  nodeIndex :: "string \<rightharpoonup> nat"
  links :: "link list"
  linkIndex :: "string \<rightharpoonup> nat"

definition getNodeIndex :: "string \<Rightarrow> sankey \<Rightarrow> nat js_lookup \<times> sankey" where
  "getNodeIndex nm s =
     (let s' =
        (if js_get (nodeIndex s) nm = Undefined
         then s\<lparr>nodeIndex := (nodeIndex s)(nm \<mapsto> length (nodes s)),
                nodes := nodes s @ [\<lparr>name = nm, index = length (nodes s)\<rparr>]\<rparr>
         else s)
      in (js_get (nodeIndex s') nm, s'))"

definition linkKey :: "nat js_lookup \<Rightarrow> nat js_lookup \<Rightarrow> string" where
  "linkKey src tgt = render src @ ''-'' @ render tgt"

text \<open>
  \<^verbatim>\<open>getLinkIndex\<close>: the index it returns is dropped by its only caller, so the model returns
  the state alone. In the \<^verbatim>\<open>else\<close> branch \<^verbatim>\<open>links[linkIndex[key]].value += 1\<close> throws a
  \<^verbatim>\<open>TypeError\<close> when \<^verbatim>\<open>links[...]\<close> is \<^verbatim>\<open>undefined\<close>: for an index out of range or an index
  that is no number.
\<close>

definition getLinkIndex :: "nat js_lookup \<Rightarrow> nat js_lookup \<Rightarrow> sankey \<Rightarrow> js_error + sankey" where
  "getLinkIndex src tgt s =
     (let key = linkKey src tgt in
      if js_get (linkIndex s) key = Undefined
      then Inr (s\<lparr>linkIndex := (linkIndex s)(key \<mapsto> length (links s)),
                  links := links s @ [\<lparr>source = src, target = tgt, link_value = 1\<rparr>]\<rparr>)
      else
        (case js_get (linkIndex s) key of
           Own j \<Rightarrow>
             if j < length (links s)
             then Inr (s\<lparr>links :=
                     (links s)[j := (links s ! j)\<lparr>link_value := link_value (links s ! j) + 1\<rparr>]\<rparr>)
             else Inl TypeError
         | _ \<Rightarrow> Inl TypeError))"

fun andThen :: "js_error + 'a \<Rightarrow> ('a \<Rightarrow> js_error + 'b) \<Rightarrow> js_error + 'b" where
  "andThen (Inl e) f = Inl e"
| "andThen (Inr x) f = f x"

text \<open>The callback of \<^verbatim>\<open>node_data.forEach\<close>, and the loop.\<close>

definition addItem :: "log_record \<Rightarrow> sankey \<Rightarrow> js_error + sankey" where
  "addItem item s0 =
     (let ip = ip_address item;
          apiType = ''API - JSON'';
          hostname' = hostname item;
          path' = path item;
          method' = http_method item;
          (ipIndex, s1) = getNodeIndex ip s0;
          (apiTypeIndex, s2) = getNodeIndex apiType s1;
          (hostnameIndex, s3) = getNodeIndex hostname' s2;
          (pathIndex, s4) = getNodeIndex path' s3;
          (methodIndex, s5) = getNodeIndex method' s4
      in andThen (andThen (andThen (getLinkIndex ipIndex apiTypeIndex s5)
                   (getLinkIndex apiTypeIndex hostnameIndex))
                   (getLinkIndex hostnameIndex pathIndex))
                   (getLinkIndex pathIndex methodIndex))"

fun forEach :: "('a \<Rightarrow> 's \<Rightarrow> js_error + 's) \<Rightarrow> 'a list \<Rightarrow> 's \<Rightarrow> js_error + 's" where
  "forEach f [] s = Inr s"
| "forEach f (x # xs) s = andThen (f x s) (forEach f xs)"

definition createSankeyData :: "log_record list \<Rightarrow> js_error + node list \<times> link list" where
  "createSankeyData node_data =
     andThen
       (forEach addItem node_data
          \<lparr>nodes = [], nodeIndex = Map.empty, links = [], linkIndex = Map.empty\<rparr>)
       (\<lambda>s. Inr (nodes s, links s))"

subsection \<open>What the graph is read for\<close>

text \<open>
  The weight between two labels: the \<^verbatim>\<open>index\<close> fields of the nodes that carry the labels,
  and the weight of the links from the one index to the other. The weighted transitions of a
  graph: each link with the labels of its two ends, a node's name for a node position and
  the key itself for an inherited member.
\<close>

definition pos :: "'a list \<Rightarrow> 'a \<Rightarrow> nat" where
  "pos xs x = length (takeWhile (\<lambda>y. y \<noteq> x) xs)"

definition indexOf :: "node list \<Rightarrow> string \<Rightarrow> nat option" where
  "indexOf ns l =
     (if l \<in> set (map name ns) then Some (index (ns ! pos (map name ns) l)) else None)"

definition weightBetween :: "node list \<times> link list \<Rightarrow> string \<Rightarrow> string \<Rightarrow> nat" where
  "weightBetween g a b =
     (case (indexOf (fst g) a, indexOf (fst g) b) of
        (Some i, Some j) \<Rightarrow>
          sum_list (map link_value
            (filter (\<lambda>l. source l = Own i \<and> target l = Own j) (snd g)))
      | _ \<Rightarrow> 0)"

definition labelOf :: "node list \<Rightarrow> nat js_lookup \<Rightarrow> string" where
  "labelOf ns r =
     (case r of
        Own i \<Rightarrow> if i < length ns then name (ns ! i) else []
      | Proto k \<Rightarrow> k
      | Undefined \<Rightarrow> [])"

definition weightedTransitions ::
  "node list \<times> link list \<Rightarrow> (string \<times> string \<times> nat) multiset" where
  "weightedTransitions g =
     mset (map (\<lambda>l. (labelOf (fst g) (source l), labelOf (fst g) (target l), link_value l))
       (snd g))"

subsection \<open>The graph in closed form\<close>

text \<open>
  The labels an entry passes to \<^verbatim>\<open>getNodeIndex\<close> and the four pairs it passes to
  \<^verbatim>\<open>getLinkIndex\<close>, in order. Below, the state reached from the empty one after the labels
  \<open>L\<close> and the pairs \<open>T\<close> is written down directly: the nodes are the labels that are no
  inherited key, each once, in order of first occurrence; the links are the pairs, each once
  in order of first occurrence, with the number of its occurrences. That
  \<^verbatim>\<open>createSankeyData\<close> computes this state is proved further down.
\<close>

definition chain :: "log_record \<Rightarrow> string list" where
  "chain item = [ip_address item, ''API - JSON'', hostname item, path item, http_method item]"

definition labels :: "log_record list \<Rightarrow> string list" where
  "labels node_data = concat (map chain node_data)"

definition steps :: "log_record \<Rightarrow> (string \<times> string) list" where
  "steps item =
     [(ip_address item, ''API - JSON''), (''API - JSON'', hostname item),
      (hostname item, path item), (path item, http_method item)]"

definition transitions :: "log_record list \<Rightarrow> (string \<times> string) list" where
  "transitions node_data = concat (map steps node_data)"

definition firsts :: "'a list \<Rightarrow> 'a list" where
  "firsts xs = rev (remdups (rev xs))"

definition node_names :: "string list \<Rightarrow> string list" where
  "node_names L = firsts (filter (\<lambda>l. l \<notin> set object_prototype_keys) L)"

definition ref :: "string list \<Rightarrow> string \<Rightarrow> nat js_lookup" where
  "ref L l =
     (if l \<in> set object_prototype_keys then Proto l
      else if l \<in> set L then Own (pos (node_names L) l)
      else Undefined)"

definition nodes_of :: "string list \<Rightarrow> node list" where
  "nodes_of L = map (\<lambda>(i, n). \<lparr>name = n, index = i\<rparr>) (enumerate 0 (node_names L))"

definition nodeIndex_of :: "string list \<Rightarrow> string \<rightharpoonup> nat" where
  "nodeIndex_of L =
     (\<lambda>l. if l \<in> set (node_names L) then Some (pos (node_names L) l) else None)"

definition link_of :: "string list \<Rightarrow> (string \<times> string) list \<Rightarrow> string \<times> string \<Rightarrow> link" where
  "link_of L T p = \<lparr>source = ref L (fst p), target = ref L (snd p), link_value = count_list T p\<rparr>"

definition links_of :: "string list \<Rightarrow> (string \<times> string) list \<Rightarrow> link list" where
  "links_of L T = map (link_of L T) (firsts T)"

definition key_of :: "string list \<Rightarrow> string \<times> string \<Rightarrow> string" where
  "key_of L p = linkKey (ref L (fst p)) (ref L (snd p))"

definition link_keys :: "string list \<Rightarrow> (string \<times> string) list \<Rightarrow> string list" where
  "link_keys L T = map (key_of L) (firsts T)"

definition linkIndex_of :: "string list \<Rightarrow> (string \<times> string) list \<Rightarrow> string \<rightharpoonup> nat" where
  "linkIndex_of L T =
     (\<lambda>k. if k \<in> set (link_keys L T) then Some (pos (link_keys L T) k) else None)"

definition state_of :: "string list \<Rightarrow> (string \<times> string) list \<Rightarrow> sankey" where
  "state_of L T =
     \<lparr>nodes = nodes_of L, nodeIndex = nodeIndex_of L,
      links = links_of L T, linkIndex = linkIndex_of L T\<rparr>"

definition covers :: "string list \<Rightarrow> (string \<times> string) list \<Rightarrow> bool" where
  "covers L T = (\<forall>p \<in> set T. fst p \<in> set L \<and> snd p \<in> set L)"

text \<open>Reading a decimal numeral back, and the values a read of the node index can give.\<close>

definition digit_val :: "char \<Rightarrow> nat" where
  "digit_val c = pos ''0123456789'' c"

definition undec :: "string \<Rightarrow> nat" where
  "undec s = foldl (\<lambda>a c. 10 * a + digit_val c) 0 s"

definition is_ref :: "nat js_lookup \<Rightarrow> bool" where
  "is_ref r = (case r of Proto k \<Rightarrow> k \<in> set object_prototype_keys | _ \<Rightarrow> True)"

text \<open>A second log entry for the closed instances.\<close>

definition entry1 :: log_record where
  "entry1 =
     \<lparr>ts = 7200, hostname = ''h'', path = ''/q'', http_method = ''POST'', response_status = 500,
      response_time = 150, ip_address = ''b''\<rparr>"

section \<open>Dates\<close>

text \<open>
  A \<^verbatim>\<open>Date\<close> is its time value, the milliseconds since 1970-01-01T00:00:00Z. Its calendar
  fields are those of the local time, the time value shifted by the offset of the time zone
  of the process, over the proleptic Gregorian calendar. The time zone is a parameter of
  everything below. The functions of the \<^verbatim>\<open>date-fns\<close> library that \<^verbatim>\<open>organizeData\<close> calls
  are not part of the repository; they are written here after the library, as the getters and
  setters of \<^verbatim>\<open>Date\<close> they consist of.

  Months are counted from January 1970 (month \<open>0\<close>; negative before). \<open>monthStart k\<close> is the
  day number (days since the epoch) of the first day of month \<open>k\<close>: with the year taken to
  begin in March, \<open>daysBeforeYear y\<close> are the days before the year \<open>y\<close> and
  \<open>daysBeforeMonth m\<close> the days of a year before its month \<open>m\<close> (March is \<open>0\<close>); the day
  number of the first of March of the year 0 is \<open>-719468\<close>.
\<close>

type_synonym date = int

definition msPerMinute :: int where
  "msPerMinute = 60000"

definition msPerHour :: int where
  "msPerHour = 3600000"

definition msPerDay :: int where
  "msPerDay = 86400000"

definition daysBeforeYear :: "int \<Rightarrow> int" where
  "daysBeforeYear y = 365 * y + y div 4 - y div 100 + y div 400"

definition daysBeforeMonth :: "int \<Rightarrow> int" where
  "daysBeforeMonth m = (153 * m + 2) div 5"

definition monthStart :: "int \<Rightarrow> int" where
  "monthStart k =
     daysBeforeYear (1970 + (k - 2) div 12) + daysBeforeMonth ((k - 2) mod 12) - 719468"

text \<open>
  The month a day lies in: the last month that starts on or before it. A month has 28 to 31
  days, so the month of day \<open>d\<close> lies between \<open>d/31\<close> and \<open>d/28\<close>; the search runs down from
  the larger of the two.
\<close>

fun monthSearch :: "nat \<Rightarrow> int \<Rightarrow> int \<Rightarrow> int" where
  "monthSearch 0 k d = k"
| "monthSearch (Suc fuel) k d = (if monthStart k \<le> d then k else monthSearch fuel (k - 1) d)"

definition monthOfDay :: "int \<Rightarrow> int" where
  "monthOfDay d =
     monthSearch (nat (max (d div 28) (d div 31) - min (d div 28) (d div 31)))
       (max (d div 28) (d div 31)) d"

text \<open>
  The calendar fields of a time value, as the language defines them (\<^verbatim>\<open>Day\<close>,
  \<^verbatim>\<open>YearFromTime\<close>, \<^verbatim>\<open>MonthFromTime\<close>, \<^verbatim>\<open>DateFromTime\<close>, \<^verbatim>\<open>WeekDay\<close>, \<^verbatim>\<open>HourFromTime\<close>,
  \<^verbatim>\<open>MinFromTime\<close>, \<^verbatim>\<open>SecFromTime\<close>, \<^verbatim>\<open>msFromTime\<close>). A getter of \<^verbatim>\<open>Date\<close> applies them to
  the local time.
\<close>

definition dayNumber :: "int \<Rightarrow> int" where
  "dayNumber t = t div msPerDay"

definition monthIndex :: "int \<Rightarrow> int" where
  "monthIndex t = monthOfDay (dayNumber t)"

definition YearFromTime :: "int \<Rightarrow> int" where
  "YearFromTime t = 1970 + monthIndex t div 12"

definition MonthFromTime :: "int \<Rightarrow> int" where
  "MonthFromTime t = monthIndex t mod 12"

definition DateFromTime :: "int \<Rightarrow> int" where
  "DateFromTime t = dayNumber t - monthStart (monthIndex t) + 1"

definition WeekDay :: "int \<Rightarrow> int" where
  "WeekDay t = (dayNumber t + 4) mod 7"

definition HourFromTime :: "int \<Rightarrow> int" where
  "HourFromTime t = (t div msPerHour) mod 24"

definition MinFromTime :: "int \<Rightarrow> int" where
  "MinFromTime t = (t div 60000) mod 60"

definition SecFromTime :: "int \<Rightarrow> int" where
  "SecFromTime t = (t div 1000) mod 60"

definition msFromTime :: "int \<Rightarrow> int" where
  "msFromTime t = t mod 1000"

subsection \<open>The time zone of the process\<close>

text \<open>
  A time zone is the offset from UTC in force at each instant: \<open>standard\<close> (in minutes, east
  of UTC positive) before the first change, and after a change \<open>(u, off)\<close> the offset
  \<open>off\<close> from the instant \<open>u\<close> on. The changes are listed in ascending order of instant.
  A zone with no change has one fixed offset.

  \<open>localTime\<close> is the local time of an instant. \<open>utc\<close> goes back from a local time to
  an instant: the instant at which that local time is shown; the earlier one when it is
  shown twice (the clock was set back), and, when it is never shown (the clock was set
  forward over it), the local time read with the offset from before the change.
\<close>

record zone =
  standard :: int
  changes :: "(date \<times> int) list"

fun offsetFrom :: "int \<Rightarrow> (date \<times> int) list \<Rightarrow> date \<Rightarrow> int" where
  "offsetFrom cur [] t = cur"
| "offsetFrom cur ((u, off) # rest) t = (if u \<le> t then offsetFrom off rest t else cur)"

definition offsetAt :: "zone \<Rightarrow> date \<Rightarrow> int" where
  "offsetAt z t = offsetFrom (standard z) (changes z) t"

definition localTime :: "zone \<Rightarrow> date \<Rightarrow> int" where
  "localTime z t = t + offsetAt z t * msPerMinute"

fun utcFrom :: "int \<Rightarrow> (date \<times> int) list \<Rightarrow> int \<Rightarrow> date" where
  "utcFrom cur [] l = l - cur * msPerMinute"
| "utcFrom cur ((u, off) # rest) l =
     (if l - cur * msPerMinute < u then l - cur * msPerMinute
      else if l - off * msPerMinute < u then l - cur * msPerMinute
      else utcFrom off rest l)"

definition utc :: "zone \<Rightarrow> int \<Rightarrow> date" where
  "utc z l = utcFrom (standard z) (changes z) l"

text \<open>
  \<^verbatim>\<open>getTimezoneOffset()\<close> is the difference from local time to UTC in minutes, so of the
  opposite sign. \<^verbatim>\<open>getDay()\<close> and \<^verbatim>\<open>getDate()\<close> are the day of the week and of the month.
\<close>

definition getTimezoneOffset :: "zone \<Rightarrow> date \<Rightarrow> int" where
  "getTimezoneOffset z t = - offsetAt z t"

definition getDay :: "zone \<Rightarrow> date \<Rightarrow> int" where
  "getDay z t = WeekDay (localTime z t)"

definition getDate :: "zone \<Rightarrow> date \<Rightarrow> int" where
  "getDate z t = DateFromTime (localTime z t)"

text \<open>
  The setters as \<^verbatim>\<open>date-fns\<close> calls them. Each computes a new local time from the fields of
  the old one and goes back to an instant: \<^verbatim>\<open>setMinutes(0, 0, 0)\<close> keeps the day and the
  hour, \<^verbatim>\<open>setHours(0, 0, 0, 0)\<close> keeps the day, and \<^verbatim>\<open>setDate(d)\<close> goes to the day \<open>d\<close>
  counted from the first of the month (any integer; day 0 is the last day of the month
  before), keeping the time of day.
\<close>

definition setMinutes_0 :: "zone \<Rightarrow> date \<Rightarrow> date" where
  "setMinutes_0 z t = (let l = localTime z t in utc z (l - l mod msPerHour))"

definition setHours_0 :: "zone \<Rightarrow> date \<Rightarrow> date" where
  "setHours_0 z t = (let l = localTime z t in utc z (l - l mod msPerDay))"

definition setDate :: "zone \<Rightarrow> date \<Rightarrow> int \<Rightarrow> date" where
  "setDate z t d =
     (let l = localTime z t
      in utc z ((monthStart (monthIndex l) + d - 1) * msPerDay + l mod msPerDay))"

subsection \<open>date-fns: start of a period, stepping back, comparing\<close>

definition startOfHour :: "zone \<Rightarrow> date \<Rightarrow> date" where
  "startOfHour z t = setMinutes_0 z t"

definition startOfDay :: "zone \<Rightarrow> date \<Rightarrow> date" where
  "startOfDay z t = setHours_0 z t"

text \<open>
  \<^verbatim>\<open>startOfWeek(date, { weekStartsOn })\<close> goes back
  \<^verbatim>\<open>(day < weekStartsOn ? 7 : 0) + day - weekStartsOn\<close> days with \<^verbatim>\<open>setDate\<close> and then to
  the start of that day; \<^verbatim>\<open>startOfMonth\<close> goes to day 1 and then to the start of that day.
\<close>

definition startOfWeek :: "zone \<Rightarrow> date \<Rightarrow> int \<Rightarrow> date" where
  "startOfWeek z t weekStartsOn =
     (let day = getDay z t;
          diff = (if day < weekStartsOn then 7 else 0) + day - weekStartsOn
      in setHours_0 z (setDate z t (getDate z t - diff)))"

definition startOfMonth :: "zone \<Rightarrow> date \<Rightarrow> date" where
  "startOfMonth z t = setHours_0 z (setDate z t 1)"

text \<open>
  \<^verbatim>\<open>subHours\<close> subtracts milliseconds from the time value. \<^verbatim>\<open>subDays\<close>, \<^verbatim>\<open>subWeeks\<close> and
  \<^verbatim>\<open>subMonths\<close> are \<^verbatim>\<open>addDays\<close>, \<^verbatim>\<open>addWeeks\<close> and \<^verbatim>\<open>addMonths\<close> of the negated amount, which
  work on the local fields and return the date as it is for the amount 0.
\<close>

definition subHours :: "date \<Rightarrow> int \<Rightarrow> date" where
  "subHours t amount = t - amount * msPerHour"

definition addDays :: "zone \<Rightarrow> date \<Rightarrow> int \<Rightarrow> date" where
  "addDays z t amount = (if amount = 0 then t else setDate z t (getDate z t + amount))"

definition subDays :: "zone \<Rightarrow> date \<Rightarrow> int \<Rightarrow> date" where
  "subDays z t amount = addDays z t (- amount)"

definition addWeeks :: "zone \<Rightarrow> date \<Rightarrow> int \<Rightarrow> date" where
  "addWeeks z t amount = addDays z t (amount * 7)"

definition subWeeks :: "zone \<Rightarrow> date \<Rightarrow> int \<Rightarrow> date" where
  "subWeeks z t amount = addWeeks z t (- amount)"

text \<open>
  \<^verbatim>\<open>addMonths\<close> first sets a copy of the date to the last day of the desired month
  (\<^verbatim>\<open>setMonth(getMonth() + amount + 1, 0)\<close>) and reads the number of that day; when the day
  of the month of the date is at least that number it returns the copy, and otherwise the
  date set to its own day of the month in that month (\<^verbatim>\<open>setFullYear\<close> with the year and
  month of the copy). Both keep the time of day.
\<close>

definition addMonths :: "zone \<Rightarrow> date \<Rightarrow> int \<Rightarrow> date" where
  "addMonths z t amount =
     (if amount = 0 then t
      else
        (let l = localTime z t;
             dayOfMonth = DateFromTime l;
             endOfDesiredMonth =
               utc z ((monthStart (monthIndex l + amount + 1) - 1) * msPerDay + l mod msPerDay);
             daysInMonth = getDate z endOfDesiredMonth
         in if daysInMonth \<le> dayOfMonth then endOfDesiredMonth
            else utc z ((monthStart (monthIndex (localTime z endOfDesiredMonth)) + dayOfMonth - 1)
                          * msPerDay + l mod msPerDay)))"

definition subMonths :: "zone \<Rightarrow> date \<Rightarrow> int \<Rightarrow> date" where
  "subMonths z t amount = addMonths z t (- amount)"

definition isAfter :: "date \<Rightarrow> date \<Rightarrow> bool" where
  "isAfter d dateToCompare = (dateToCompare < d)"

definition isBefore :: "date \<Rightarrow> date \<Rightarrow> bool" where
  "isBefore d dateToCompare = (d < dateToCompare)"

subsection \<open>date-fns: format\<close>

text \<open>
  \<^verbatim>\<open>organizeData\<close> formats with three patterns: \<^verbatim>\<open>'MMM'\<close>, \<^verbatim>\<open>"HH:00"\<close> and
  \<^verbatim>\<open>"yyyy-MM-dd'T'HH:mm:ss.SSSX"\<close>. The fields are those of the local time. A numeric token
  pads with zeros to its width; \<^verbatim>\<open>yyyy\<close> writes the year of the era (\<open>1 - y\<close> for a year
  \<open>y \<le> 0\<close>); \<^verbatim>\<open>MMM\<close> is the abbreviated English month name; \<^verbatim>\<open>X\<close> writes the zone offset:
  \<^verbatim>\<open>Z\<close> when it is zero, and otherwise the sign and the hours, followed by the minutes when
  they are not zero.
\<close>

datatype pattern = MMM | HH_00 | ISO

definition addLeadingZeros :: "nat \<Rightarrow> nat \<Rightarrow> string" where
  "addLeadingZeros n targetLength = replicate (targetLength - length (dec n)) CHR ''0'' @ dec n"

definition monthNames :: "string list" where
  "monthNames =
     [''Jan'', ''Feb'', ''Mar'', ''Apr'', ''May'', ''Jun'',
      ''Jul'', ''Aug'', ''Sep'', ''Oct'', ''Nov'', ''Dec'']"

definition formatYear :: "int \<Rightarrow> string" where
  "formatYear l =
     (let signedYear = YearFromTime l;
          year = (if 0 < signedYear then signedYear else 1 - signedYear)
      in addLeadingZeros (nat year) 4)"

definition formatTimezoneWithOptionalMinutes :: "int \<Rightarrow> string" where
  "formatTimezoneWithOptionalMinutes offset =
     (let sign = (if 0 < offset then ''-'' else ''+'');
          absOffset = \<bar>offset\<bar>
      in if offset mod 60 = 0 then sign @ addLeadingZeros (nat (absOffset div 60)) 2
         else sign @ addLeadingZeros (nat (absOffset div 60)) 2
                @ addLeadingZeros (nat (absOffset mod 60)) 2)"

definition formatX :: "zone \<Rightarrow> date \<Rightarrow> string" where
  "formatX z t =
     (let timezoneOffset = getTimezoneOffset z t
      in if timezoneOffset = 0 then ''Z'' else formatTimezoneWithOptionalMinutes timezoneOffset)"

fun format :: "zone \<Rightarrow> date \<Rightarrow> pattern \<Rightarrow> string" where
  "format z t MMM = monthNames ! nat (MonthFromTime (localTime z t))"
| "format z t HH_00 = addLeadingZeros (nat (HourFromTime (localTime z t))) 2 @ '':00''"
| "format z t ISO =
     formatYear (localTime z t) @ ''-''
       @ addLeadingZeros (nat (MonthFromTime (localTime z t) + 1)) 2 @ ''-''
       @ addLeadingZeros (nat (DateFromTime (localTime z t))) 2 @ ''T''
       @ addLeadingZeros (nat (HourFromTime (localTime z t))) 2 @ '':''
       @ addLeadingZeros (nat (MinFromTime (localTime z t))) 2 @ '':''
       @ addLeadingZeros (nat (SecFromTime (localTime z t))) 2 @ ''.''
       @ addLeadingZeros (nat (msFromTime (localTime z t))) 3 @ formatX z t"

text \<open>
  Two zones for the closed instances below: UTC, and New York in 2024, five hours behind UTC
  with daylight time, four hours behind, from 2024-03-10T07:00Z to 2024-11-03T06:00Z.
\<close>

definition utcZone :: zone where
  "utcZone = \<lparr>standard = 0, changes = []\<rparr>"

definition newYork :: zone where
  "newYork =
     \<lparr>standard = - 300, changes = [(1710054000000, - 240), (1730613600000, - 300)]\<rparr>"

section \<open>organizeData\<close>

definition getStartOfPeriod :: "zone \<Rightarrow> date \<Rightarrow> string \<Rightarrow> date" where
  "getStartOfPeriod z d period =
     (if period = ''hourly'' then startOfHour z d
      else if period = ''daily'' then startOfDay z d
      else if period = ''weekly'' then startOfWeek z d 1
      else if period = ''monthly'' then startOfMonth z d
      else startOfMonth z d)"

text \<open>The step back at the end of each round of the loop in \<^verbatim>\<open>getPreviousPeriods\<close>.\<close>

definition previous :: "zone \<Rightarrow> date \<Rightarrow> string \<Rightarrow> date" where
  "previous z current period =
     (if period = ''hourly'' then subHours current 1
      else if period = ''daily'' then subDays z current 1
      else if period = ''weekly'' then subWeeks z current 1
      else if period = ''monthly'' then subMonths z current 1
      else subMonths z current 1)"

fun periodsLoop :: "zone \<Rightarrow> nat \<Rightarrow> date \<Rightarrow> string \<Rightarrow> date list \<Rightarrow> date list" where
  "periodsLoop z 0 current period periods = periods"
| "periodsLoop z (Suc n) current period periods =
     periodsLoop z n (previous z current period) period
       (periods @ [getStartOfPeriod z current period])"

definition getPreviousPeriods :: "zone \<Rightarrow> date \<Rightarrow> string \<Rightarrow> nat \<Rightarrow> date list" where
  "getPreviousPeriods z d period cnt = rev (periodsLoop z cnt d period [])"

text \<open>
  A bucket is \<^verbatim>\<open>{ name, req, error }\<close> (the field \<^verbatim>\<open>name\<close> is \<open>bucket_name\<close> here).
  \<^verbatim>\<open>dataMap\<close> is an object keyed by the bucket's name: assigning to a key that is present
  replaces the value in place, assigning to a new key appends it, and \<^verbatim>\<open>Object.values\<close>
  lists the values in that order (every name that \<^verbatim>\<open>format\<close> produces holds a letter, a
  colon or a hyphen, so none is an array index, which would be listed first).

  \<^verbatim>\<open>organizeData\<close> reads the clock twice: \<^verbatim>\<open>currentDate\<close> at its start (\<open>now0\<close>), and
  \<^verbatim>\<open>new Date()\<close> again for the end of the last period (\<open>now1\<close>).
\<close>

record bucket =
  bucket_name :: string
  req :: int
  error :: int

type_synonym dataMap = "(string \<times> bucket) list"

definition patternOf :: "string \<Rightarrow> pattern" where
  "patternOf period =
     (if period = ''monthly'' then MMM else if period = ''hourly'' then HH_00 else ISO)"

text \<open>The callback of the inner \<^verbatim>\<open>node_data.forEach\<close>.\<close>

definition countItem :: "date \<Rightarrow> date \<Rightarrow> string \<Rightarrow> dataMap \<Rightarrow> log_record \<Rightarrow> dataMap" where
  "countItem startOfPeriod endOfPeriod nm dm item =
     (let d = ts item * 1000 in
      if isAfter d startOfPeriod \<and> isBefore d endOfPeriod
      then
        (let dm1 = AList.map_entry nm (\<lambda>b. b\<lparr>req := req b + 1\<rparr>) dm in
         if 400 \<le> response_status item
         then AList.map_entry nm (\<lambda>b. b\<lparr>error := error b + 1\<rparr>) dm1
         else dm1)
      else dm)"

text \<open>The callback of \<^verbatim>\<open>periods.forEach\<close>.\<close>

definition addPeriod ::
  "zone \<Rightarrow> date \<Rightarrow> date list \<Rightarrow> string \<Rightarrow> log_record list \<Rightarrow> dataMap \<Rightarrow> nat \<Rightarrow> dataMap" where
  "addPeriod z now1 periods period node_data dm i =
     (let startOfPeriod = periods ! i;
          endOfPeriod = (if i < length periods - 1 then periods ! (i + 1) else now1);
          nm = format z startOfPeriod (patternOf period);
          dm1 = AList.update nm \<lparr>bucket_name = nm, req = 0, error = 0\<rparr> dm
      in foldl (countItem startOfPeriod endOfPeriod nm) dm1 node_data)"

definition organizeData ::
  "zone \<Rightarrow> date \<Rightarrow> date \<Rightarrow> log_record list \<Rightarrow> string \<Rightarrow> bucket list" where
  "organizeData z now0 now1 node_data period =
     (let periods = getPreviousPeriods z now0 period 5;
          dataMap = foldl (addPeriod z now1 periods period node_data) [] [0..<length periods]
      in map snd dataMap)"

subsection \<open>The buckets in closed form\<close>

text \<open>
  Period \<open>i\<close> (0 is the oldest) runs from the \<open>i\<close>-th period start to the next one, the last
  one to the second reading of the clock. An entry is in the period when its time lies
  strictly between the two. \<open>bucketOf\<close> is the bucket of a period with its counts written
  down directly; how the buckets that \<^verbatim>\<open>organizeData\<close> returns are made of these is proved
  further down.
\<close>

definition periodStart :: "zone \<Rightarrow> date \<Rightarrow> string \<Rightarrow> nat \<Rightarrow> date" where
  "periodStart z now0 period i = getPreviousPeriods z now0 period 5 ! i"

definition periodEnd :: "zone \<Rightarrow> date \<Rightarrow> date \<Rightarrow> string \<Rightarrow> nat \<Rightarrow> date" where
  "periodEnd z now0 now1 period i = (if i < 4 then periodStart z now0 period (i + 1) else now1)"

definition periodLabel :: "zone \<Rightarrow> date \<Rightarrow> string \<Rightarrow> nat \<Rightarrow> string" where
  "periodLabel z now0 period i = format z (periodStart z now0 period i) (patternOf period)"

definition inBucket :: "zone \<Rightarrow> date \<Rightarrow> date \<Rightarrow> string \<Rightarrow> nat \<Rightarrow> log_record \<Rightarrow> bool" where
  "inBucket z now0 now1 period i item =
     (periodStart z now0 period i < ts item * 1000
      \<and> ts item * 1000 < periodEnd z now0 now1 period i)"

definition bucketOf ::
  "zone \<Rightarrow> date \<Rightarrow> date \<Rightarrow> string \<Rightarrow> log_record list \<Rightarrow> nat \<Rightarrow> bucket" where
  "bucketOf z now0 now1 period node_data i =
     \<lparr>bucket_name = periodLabel z now0 period i,
      req = int (length (filter (inBucket z now0 now1 period i) node_data)),
      error = int (length (filter
                (\<lambda>item. inBucket z now0 now1 period i item \<and> 400 \<le> response_status item)
                node_data))\<rparr>"

text \<open>
  A period whose label is written again by a later period is overwritten in \<^verbatim>\<open>dataMap\<close>;
  \<open>kept\<close> says that period \<open>i\<close> is not.
\<close>

definition kept :: "zone \<Rightarrow> date \<Rightarrow> string \<Rightarrow> nat \<Rightarrow> bool" where
  "kept z now0 period i =
     list_all (\<lambda>j. periodLabel z now0 period j \<noteq> periodLabel z now0 period i) [i + 1..<5]"

text \<open>
  The bucket that one round of \<^verbatim>\<open>periods.forEach\<close> writes, and the number of periods an entry
  is in.
\<close>

definition stepBucket ::
  "zone \<Rightarrow> date \<Rightarrow> date list \<Rightarrow> string \<Rightarrow> log_record list \<Rightarrow> nat \<Rightarrow> bucket" where
  "stepBucket z now1 periods period node_data i =
     (let s = periods ! i; e = (if i < length periods - 1 then periods ! (i + 1) else now1) in
      \<lparr>bucket_name = format z s (patternOf period),
       req = int (length (filter (\<lambda>item. s < ts item * 1000 \<and> ts item * 1000 < e) node_data)),
       error = int (length (filter (\<lambda>item. (s < ts item * 1000 \<and> ts item * 1000 < e)
                                             \<and> 400 \<le> response_status item) node_data))\<rparr>)"


subsection \<open>Local time in a zone of one offset\<close>

text \<open>
  In a zone with no change of offset the local time is the time value plus the constant
  \<open>offsetMs\<close>, and the functions above are these functions of the local time, shifted back.
\<close>

definition offsetMs :: "zone \<Rightarrow> int" where
  "offsetMs z = standard z * msPerMinute"

definition floorHour :: "int \<Rightarrow> int" where
  "floorHour l = l - l mod msPerHour"

definition floorDay :: "int \<Rightarrow> int" where
  "floorDay l = l - l mod msPerDay"

definition floorWeek :: "int \<Rightarrow> int" where
  "floorWeek l =
     floorDay l - ((if WeekDay l < 1 then 7 else 0) + WeekDay l - 1) * msPerDay"

definition floorMonth :: "int \<Rightarrow> int" where
  "floorMonth l = monthStart (monthIndex l) * msPerDay"

definition monthBack :: "int \<Rightarrow> int" where
  "monthBack l =
     (let desired = monthIndex l - 1;
          daysInMonth = monthStart (desired + 1) - monthStart desired;
          dayOfMonth = DateFromTime l
      in (monthStart desired + (if daysInMonth \<le> dayOfMonth then daysInMonth else dayOfMonth) - 1)
           * msPerDay + l mod msPerDay)"

section \<open>Properties of createRadarChartData\<close>

lemma floor_rat_numeral_div [simp]:
  "\<lfloor>(numeral a :: rat) / numeral b\<rfloor> = numeral a div numeral b"
  by (metis floor_divide_of_int_eq of_int_numeral)

lemmas stats_defs = totalRequests_def successfulRequests_def uptime_def latency_def
  timePeriodInSeconds_def rps_def successRate_def latencyRatio_def jsub_def







lemma valueOf_Latency:
  "valueOf ''Latency'' (createRadarChartData nf node_data s e (Some hm)) =
     [if jgt (latencyRatio hm node_data) (Fin 100) then Fin 100
      else roundFixed 2 (latencyRatio hm node_data)]"
  by (simp add: valueOf_def createRadarChartData_def)

lemma valueOf_Success:
  "valueOf ''Success'' (createRadarChartData nf node_data s e (Some hm)) = [successRate node_data]"
  by (simp add: valueOf_def createRadarChartData_def)

lemma valueOf_Uptime:
  "valueOf ''Uptime'' (createRadarChartData nf node_data s e (Some hm)) =
     [jmul (jdiv (uptime node_data) (Fin (Uptime hm))) (Fin 100)]"
  by (simp add: valueOf_def createRadarChartData_def)

lemma valueOf_RPS:
  "valueOf ''RPS'' (createRadarChartData nf node_data s e (Some hm)) =
     [jmul (jdiv (roundFixed 5 (rps node_data s e)) (Fin (RPS hm))) (Fin 100)]"
  by (simp add: valueOf_def createRadarChartData_def)

text \<open>
  C9. Two settings objects that differ only in the field \<^verbatim>\<open>Success\<close> give the same result on
  the same log entries and window: \<^verbatim>\<open>Success\<close> is destructured but enters no value, cap or
  display string.
\<close>

theorem createRadarChartData_ignores_Success:
  "createRadarChartData nf node_data startTimestamp endTimestamp (Some (hm\<lparr>Success := x\<rparr>))
     = createRadarChartData nf node_data startTimestamp endTimestamp (Some hm)"
  by (simp add: createRadarChartData_def latencyRatio_def)

text \<open>
  C1 as stated fails: with the settings present the function raises nothing. On an empty list
  of entries the \<^verbatim>\<open>Uptime\<close> value is NaN; on one entry and a window of length zero the
  \<^verbatim>\<open>RPS\<close> value is \<^verbatim>\<open>Infinity\<close>; on a window that ends before it starts the six metrics are
  returned all the same, with the \<^verbatim>\<open>RPS\<close> value \<open>-50\<close>.
\<close>

theorem createRadarChartData_empty_counterexample:
  "valueOf ''Uptime'' (createRadarChartData blank_format [] 0 10 (Some settings100)) = [NaN]
   \<and> valueOf ''RPS'' (createRadarChartData blank_format [entry0] 5 5 (Some settings100)) = [PInf]
   \<and> valueOf ''RPS'' (createRadarChartData blank_format [entry0] 5 3 (Some settings100))
       = [Fin (- 50)]"
  by (simp add: valueOf_def createRadarChartData_def stats_defs settings100_def entry0_def
      roundFixed_def)

text \<open>
  C1, amended. Given the settings, \<^verbatim>\<open>createRadarChartData\<close> returns its six metrics for every
  list of entries and every window, whatever the order of the window's ends, and raises no
  division error: for an empty list the \<^verbatim>\<open>Uptime\<close>, \<^verbatim>\<open>Success\<close> and \<^verbatim>\<open>Latency\<close> values are
  NaN; for a non-empty list and a window with \<^verbatim>\<open>endTimestamp = startTimestamp\<close> the \<^verbatim>\<open>RPS\<close>
  value is \<^verbatim>\<open>Infinity\<close> or \<^verbatim>\<open>-Infinity\<close>.
\<close>

theorem createRadarChartData_divides_silently:
  "(\<exists>ms. createRadarChartData nf node_data s e (Some hm) = Inr ms
          \<and> map subject ms = [''RPS'', ''Uptime'', ''Success'', ''Inventory'', ''Builders'', ''Latency''])
   \<and> valueOf ''Uptime'' (createRadarChartData nf [] s e (Some hm)) = [NaN]
   \<and> valueOf ''Success'' (createRadarChartData nf [] s e (Some hm)) = [NaN]
   \<and> valueOf ''Latency'' (createRadarChartData nf [] s e (Some hm)) = [NaN]
   \<and> (node_data \<noteq> [] \<longrightarrow>
        valueOf ''RPS'' (createRadarChartData nf node_data s s (Some hm)) = [PInf]
        \<or> valueOf ''RPS'' (createRadarChartData nf node_data s s (Some hm)) = [NInf])"
proof -
  have a: "\<exists>ms. createRadarChartData nf node_data s e (Some hm) = Inr ms
      \<and> map subject ms = [''RPS'', ''Uptime'', ''Success'', ''Inventory'', ''Builders'', ''Latency'']"
    by (simp add: createRadarChartData_def)
  have b: "valueOf ''Uptime'' (createRadarChartData nf [] s e (Some hm)) = [NaN]"
    by (simp add: valueOf_Uptime uptime_def totalRequests_def jsub_def)
  have c: "valueOf ''Success'' (createRadarChartData nf [] s e (Some hm)) = [NaN]"
    by (simp add: valueOf_Success successRate_def successfulRequests_def totalRequests_def)
  have d: "valueOf ''Latency'' (createRadarChartData nf [] s e (Some hm)) = [NaN]"
    by (simp add: valueOf_Latency latencyRatio_def latency_def totalRequests_def roundFixed_def)
  have e: "valueOf ''RPS'' (createRadarChartData nf node_data s s (Some hm)) = [PInf]
      \<or> valueOf ''RPS'' (createRadarChartData nf node_data s s (Some hm)) = [NInf]"
    if "node_data \<noteq> []"
    using that
    by (simp add: valueOf_RPS rps_def totalRequests_def timePeriodInSeconds_def roundFixed_def)
  from a b c d e show ?thesis by blast
qed

text \<open>The amended C1 at one entry and the window \<open>[5, 5]\<close>.\<close>

theorem createRadarChartData_divides_silently_witness:
  "valueOf ''RPS'' (createRadarChartData blank_format [entry0] 5 5 (Some settings100)) = [PInf]"
proof -
  have h: "[entry0] \<noteq> []" by simp
  have n: "valueOf ''RPS'' (createRadarChartData blank_format [entry0] 5 5 (Some settings100))
      \<noteq> [NInf]"
    by (simp add: valueOf_RPS rps_def totalRequests_def timePeriodInSeconds_def roundFixed_def
        settings100_def)
  from createRadarChartData_divides_silently[of blank_format "[entry0]" 5 5 settings100] h n
  show ?thesis by blast
qed




section \<open>Properties of createSankeyData\<close>

subsection \<open>Lists: first occurrences and positions\<close>

lemma firsts_Nil [simp]: "firsts [] = []"
  by (simp add: firsts_def)

lemma firsts_snoc: "firsts (xs @ [x]) = (if x \<in> set xs then firsts xs else firsts xs @ [x])"
  by (simp add: firsts_def)

lemma set_firsts [simp]: "set (firsts xs) = set xs"
  by (simp add: firsts_def)

lemma distinct_firsts [simp]: "distinct (firsts xs)"
  by (simp add: firsts_def)

lemma pos_less: "x \<in> set xs \<Longrightarrow> pos xs x < length xs"
  unfolding pos_def by (induction xs) auto

lemma nth_pos: "x \<in> set xs \<Longrightarrow> xs ! pos xs x = x"
  unfolding pos_def by (induction xs) auto

lemma pos_append_in: "x \<in> set xs \<Longrightarrow> pos (xs @ ys) x = pos xs x"
  unfolding pos_def by (induction xs) auto

lemma pos_snoc_new: "x \<notin> set xs \<Longrightarrow> pos (xs @ [x]) x = length xs"
  unfolding pos_def by (induction xs) auto

lemma pos_inj: "x \<in> set xs \<Longrightarrow> y \<in> set xs \<Longrightarrow> pos xs x = pos xs y \<Longrightarrow> x = y"
  by (metis nth_pos)

lemma pos_map: "inj_on f (insert x (set xs)) \<Longrightarrow> pos (map f xs) (f x) = pos xs x"
  unfolding pos_def
proof (induction xs)
  case Nil
  then show ?case by simp
next
  case (Cons a xs)
  have "inj_on f (insert x (set xs))"
    using Cons.prems by (rule inj_on_subset) auto
  moreover have "f a = f x \<longleftrightarrow> a = x"
    using Cons.prems by (auto simp: inj_on_def)
  ultimately show ?case using Cons.IH by simp
qed

lemma pos_nth_distinct: "distinct xs \<Longrightarrow> i < length xs \<Longrightarrow> pos xs (xs ! i) = i"
  by (metis nth_mem nth_eq_iff_index_eq pos_less nth_pos)

lemma count_list_snoc: "count_list (xs @ [x]) y = count_list xs y + (if x = y then 1 else 0)"
  by (induction xs) auto

subsection \<open>The link key determines the pair of ends\<close>

lemma digit_val_digit_char: "d < 10 \<Longrightarrow> digit_val (digit_char d) = d"
  unfolding digit_val_def digit_char_def by (rule pos_nth_distinct) simp_all

lemma digit_char_mem: "d < 10 \<Longrightarrow> digit_char d \<in> set ''0123456789''"
  unfolding digit_char_def by (rule nth_mem) simp

lemma undec_dec: "undec (dec n) = n"
proof (induction n rule: dec.induct)
  case (1 n)
  show ?case
  proof (cases "n < 10")
    case True
    then show ?thesis by (simp add: dec.simps[of n] undec_def digit_val_digit_char)
  next
    case False
    have "undec (dec n) = 10 * undec (dec (n div 10)) + digit_val (digit_char (n mod 10))"
      using False by (simp add: dec.simps[of n] undec_def)
    also have "\<dots> = 10 * (n div 10) + n mod 10"
      using 1[OF False] by (simp add: digit_val_digit_char)
    finally show ?thesis by simp
  qed
qed

lemma dec_inj: "dec n = dec m \<Longrightarrow> n = m"
  by (metis undec_dec)

lemma set_dec: "set (dec n) \<subseteq> set ''0123456789''"
proof (induction n rule: dec.induct)
  case (1 n)
  show ?case
  proof (cases "n < 10")
    case True
    then show ?thesis using digit_char_mem[of n] by (simp add: dec.simps[of n])
  next
    case False
    then show ?thesis using 1[OF False] digit_char_mem[of "n mod 10"]
      by (simp add: dec.simps[of n])
  qed
qed

lemma dash_notin_dec: "CHR ''-'' \<notin> set (dec n)"
  using set_dec[of n] by auto

lemma dash_notin_inherited: "k \<in> set object_prototype_keys \<Longrightarrow> CHR ''-'' \<notin> set k"
  unfolding object_prototype_keys_def by (simp, elim disjE) simp_all

lemma dash_notin_render: "is_ref r \<Longrightarrow> CHR ''-'' \<notin> set (render r)"
proof (cases r)
  case (Own n)
  then show ?thesis by (simp add: dash_notin_dec)
next
  case (Proto k)
  assume "is_ref r"
  then have "CHR ''-'' \<notin> set k" using Proto dash_notin_inherited by (simp add: is_ref_def)
  then show ?thesis using Proto by simp
next
  case Undefined
  then show ?thesis by simp
qed

lemma render_Proto_has_c: "CHR ''c'' \<in> set (render (Proto k))"
  by simp

lemma render_Own_neq: "render r = dec n \<Longrightarrow> r = Own n"
proof (cases r)
  case (Own m)
  then show "render r = dec n \<Longrightarrow> r = Own n" using dec_inj by simp
next
  case (Proto k)
  assume "render r = dec n"
  then have "CHR ''c'' \<in> set (dec n)"
    using render_Proto_has_c[of k] Proto by simp
  then show "r = Own n" using set_dec[of n] by auto
next
  case Undefined
  assume "render r = dec n"
  then have "CHR ''u'' \<in> set (dec n)" using Undefined by (metis list.set_intros(1) render.simps(3))
  then show "r = Own n" using set_dec[of n] by auto
qed

lemma Object_not_inherited: "''Object'' \<notin> set object_prototype_keys"
  by (simp add: object_prototype_keys_def)

lemma render_Proto_inj:
  assumes "k \<in> set object_prototype_keys" "k' \<in> set object_prototype_keys"
    "render (Proto k) = render (Proto k')"
  shows "k = k'"
proof (cases "k = ''__proto__''")
  case True
  show ?thesis
  proof (cases "k' = ''__proto__''")
    case T: True
    then show ?thesis using True by simp
  next
    case False
    then show ?thesis using True assms(3) by simp
  qed
next
  case False
  show ?thesis
  proof (cases "k' = ''__proto__''")
    case True
    then show ?thesis using False assms(3) by simp
  next
    case F: False
    let ?f = "\<lambda>k. if k = ''constructor'' then ''Object'' else k"
    from assms(3) False F have "?f k = ?f k'" by simp
    then show ?thesis using assms(1,2) Object_not_inherited
      by (cases "k = ''constructor''"; cases "k' = ''constructor''") auto
  qed
qed

lemma render_Undefined_neq_Proto: "render (Proto k) \<noteq> render Undefined"
  by simp

lemma render_inj: "is_ref r \<Longrightarrow> is_ref r' \<Longrightarrow> render r = render r' \<Longrightarrow> r = r'"
proof (cases r)
  case (Own n)
  assume "render r = render r'"
  then show ?thesis using render_Own_neq[of r' n] Own by simp
next
  case (Proto k)
  assume a: "is_ref r" "is_ref r'" "render r = render r'"
  show ?thesis
  proof (cases r')
    case (Own n)
    then show ?thesis using render_Own_neq[of r n] a by simp
  next
    case P: (Proto k')
    from a Proto P render_Proto_inj[of k k'] show ?thesis
      by (simp add: is_ref_def)
  next
    case Undefined
    then show ?thesis using a(3) Proto render_Undefined_neq_Proto[of k] by simp
  qed
next
  case Undefined
  assume a: "is_ref r" "is_ref r'" "render r = render r'"
  show ?thesis
  proof (cases r')
    case (Own n)
    then show ?thesis using render_Own_neq[of r n] a by simp
  next
    case (Proto k')
    then show ?thesis using a(3) Undefined render_Undefined_neq_Proto[of k'] by simp
  next
    case U: Undefined
    then show ?thesis using Undefined by simp
  qed
qed

lemma split_at_sep:
  "c \<notin> set xs \<Longrightarrow> c \<notin> set xs' \<Longrightarrow> xs @ c # ys = xs' @ c # ys' \<Longrightarrow> xs = xs' \<and> ys = ys'"
proof (induction xs arbitrary: xs')
  case Nil
  then show ?case by (cases xs') auto
next
  case (Cons a xs)
  then show ?case by (cases xs') auto
qed

lemma linkKey_inj:
  assumes "is_ref a" "is_ref b" "is_ref a'" "is_ref b'" "linkKey a b = linkKey a' b'"
  shows "a = a' \<and> b = b'"
proof -
  from assms(5) have "render a @ CHR ''-'' # render b = render a' @ CHR ''-'' # render b'"
    by (simp add: linkKey_def)
  from split_at_sep[OF dash_notin_render[OF assms(1)] dash_notin_render[OF assms(3)] this]
  show ?thesis using assms(1-4) render_inj by blast
qed

lemma linkKey_not_inherited: "linkKey a b \<notin> set object_prototype_keys"
proof
  assume "linkKey a b \<in> set object_prototype_keys"
  from dash_notin_inherited[OF this] show False by (simp add: linkKey_def)
qed

subsection \<open>The two helpers on the closed form\<close>

lemma set_node_names: "set (node_names L) = {l \<in> set L. l \<notin> set object_prototype_keys}"
  by (auto simp: node_names_def)

lemma node_names_snoc:
  "node_names (L @ [l]) =
     (if l \<in> set object_prototype_keys \<or> l \<in> set L then node_names L else node_names L @ [l])"
  by (simp add: node_names_def firsts_snoc)

lemma length_nodes_of [simp]: "length (nodes_of L) = length (node_names L)"
  by (simp add: nodes_of_def)

lemma is_ref_ref [simp]: "is_ref (ref L a)"
  by (simp add: is_ref_def ref_def)

lemma ref_snoc:
  assumes "a \<in> set L \<or> a \<in> set object_prototype_keys"
  shows "ref (L @ [l]) a = ref L a"
proof (cases "a \<in> set object_prototype_keys")
  case True
  then show ?thesis by (simp add: ref_def)
next
  case False
  with assms have a: "a \<in> set L" by simp
  then have "a \<in> set (node_names L)" using False by (simp add: set_node_names)
  then have "pos (node_names (L @ [l])) a = pos (node_names L) a"
    by (simp add: node_names_snoc pos_append_in)
  then show ?thesis using a False by (simp add: ref_def)
qed

lemma ref_inj:
  assumes "a \<in> set L \<or> a \<in> set object_prototype_keys"
    "b \<in> set L \<or> b \<in> set object_prototype_keys" "ref L a = ref L b"
  shows "a = b"
proof (cases "a \<in> set object_prototype_keys")
  case True
  then show ?thesis using assms(3) by (auto simp: ref_def split: if_splits)
next
  case False
  then have b: "b \<notin> set object_prototype_keys"
    using assms(3) by (auto simp: ref_def split: if_splits)
  from False b assms have "a \<in> set (node_names L)" "b \<in> set (node_names L)"
    by (simp_all add: set_node_names)
  moreover have "pos (node_names L) a = pos (node_names L) b"
    using False b assms by (simp add: ref_def)
  ultimately show ?thesis by (rule pos_inj)
qed

lemma link_of_snoc:
  assumes "fst p \<in> set L" "snd p \<in> set L"
  shows "link_of (L @ [l]) T p = link_of L T p"
  using assms by (simp add: link_of_def ref_snoc)

lemma links_of_snoc: "covers L T \<Longrightarrow> links_of (L @ [l]) T = links_of L T"
  unfolding links_of_def covers_def
  by (rule map_cong) (simp_all add: link_of_snoc)

lemma key_of_snoc:
  assumes "fst p \<in> set L" "snd p \<in> set L"
  shows "key_of (L @ [l]) p = key_of L p"
  using assms by (simp add: key_of_def ref_snoc)

lemma link_keys_snoc: "covers L T \<Longrightarrow> link_keys (L @ [l]) T = link_keys L T"
  unfolding link_keys_def covers_def
  by (rule map_cong) (simp_all add: key_of_snoc)

lemma linkIndex_of_snoc:
  assumes "covers L T"
  shows "linkIndex_of (L @ [l]) T = linkIndex_of L T"
  unfolding linkIndex_of_def link_keys_snoc[OF assms] by (rule refl)

lemma covers_snoc: "covers L T \<Longrightarrow> covers (L @ [l]) T"
  by (auto simp: covers_def)

lemma nodes_of_new:
  assumes "l \<notin> set object_prototype_keys" "l \<notin> set L"
  shows "nodes_of (L @ [l]) = nodes_of L @ [\<lparr>name = l, index = length (node_names L)\<rparr>]"
  using assms by (simp add: nodes_of_def node_names_snoc enumerate_append_eq)

lemma nodeIndex_of_new:
  assumes "l \<notin> set object_prototype_keys" "l \<notin> set L"
  shows "nodeIndex_of (L @ [l]) = (nodeIndex_of L)(l \<mapsto> length (node_names L))"
proof
  fix x
  have l: "l \<notin> set (node_names L)" using assms by (simp add: set_node_names)
  show "nodeIndex_of (L @ [l]) x = ((nodeIndex_of L)(l \<mapsto> length (node_names L))) x"
    using assms l
    by (auto simp: nodeIndex_of_def node_names_snoc pos_snoc_new pos_append_in)
qed

lemma nodes_of_old:
  assumes "l \<in> set object_prototype_keys \<or> l \<in> set L"
  shows "nodes_of (L @ [l]) = nodes_of L" "nodeIndex_of (L @ [l]) = nodeIndex_of L"
proof -
  have "node_names (L @ [l]) = node_names L"
    using assms by (simp add: node_names_snoc)
  then show "nodes_of (L @ [l]) = nodes_of L" "nodeIndex_of (L @ [l]) = nodeIndex_of L"
    unfolding nodes_of_def nodeIndex_of_def by (simp_all cong: if_cong)
qed

lemma getNodeIndex_state_of:
  assumes "covers L T"
  shows "getNodeIndex l (state_of L T) = (ref (L @ [l]) l, state_of (L @ [l]) T)"
proof -
  consider (inh) "l \<in> set object_prototype_keys"
    | (old) "l \<notin> set object_prototype_keys" "l \<in> set L"
    | (new) "l \<notin> set object_prototype_keys" "l \<notin> set L"
    by blast
  then show ?thesis
  proof cases
    case inh
    then have "l \<notin> set (node_names L)" by (simp add: set_node_names)
    then have g: "js_get (nodeIndex_of L) l = Proto l"
      using inh by (simp add: js_get_def nodeIndex_of_def)
    have "state_of (L @ [l]) T = state_of L T"
      using inh assms by (simp add: state_of_def nodes_of_old links_of_snoc linkIndex_of_snoc)
    moreover have "ref (L @ [l]) l = Proto l" using inh by (simp add: ref_def)
    ultimately show ?thesis using g by (simp add: getNodeIndex_def state_of_def)
  next
    case old
    then have m: "l \<in> set (node_names L)" by (simp add: set_node_names)
    then have g: "js_get (nodeIndex_of L) l = Own (pos (node_names L) l)"
      by (simp add: js_get_def nodeIndex_of_def)
    have "state_of (L @ [l]) T = state_of L T"
      using old assms by (simp add: state_of_def nodes_of_old links_of_snoc linkIndex_of_snoc)
    moreover have "ref (L @ [l]) l = Own (pos (node_names L) l)"
      using old by (simp add: ref_def node_names_snoc)
    ultimately show ?thesis using g by (simp add: getNodeIndex_def state_of_def)
  next
    case new
    then have m: "l \<notin> set (node_names L)" by (simp add: set_node_names)
    then have g: "js_get (nodeIndex_of L) l = Undefined"
      using new by (simp add: js_get_def nodeIndex_of_def)
    have s: "state_of (L @ [l]) T =
        (state_of L T)\<lparr>nodeIndex := (nodeIndex_of L)(l \<mapsto> length (node_names L)),
           nodes := nodes_of L @ [\<lparr>name = l, index = length (node_names L)\<rparr>]\<rparr>"
      using new assms
      by (simp add: state_of_def nodes_of_new nodeIndex_of_new links_of_snoc linkIndex_of_snoc)
    have r: "ref (L @ [l]) l = Own (length (node_names L))"
      using new m by (simp add: ref_def node_names_snoc pos_snoc_new)
    show ?thesis
      unfolding getNodeIndex_def s r using g
      by (simp add: state_of_def js_get_def)
  qed
qed

lemma key_of_inj:
  assumes "covers L T" "fst p \<in> set L" "snd p \<in> set L"
  shows "inj_on (key_of L) (insert p (set (firsts T)))"
proof (rule inj_onI)
  fix x y
  assume x: "x \<in> insert p (set (firsts T))" and y: "y \<in> insert p (set (firsts T))"
    and e: "key_of L x = key_of L y"
  have mem: "fst q \<in> set L \<and> snd q \<in> set L" if "q \<in> insert p (set (firsts T))" for q
    using that assms by (auto simp: covers_def)
  from e have "ref L (fst x) = ref L (fst y) \<and> ref L (snd x) = ref L (snd y)"
    unfolding key_of_def by (intro linkKey_inj) simp_all
  then have "fst x = fst y" "snd x = snd y"
    using mem[OF x] mem[OF y] by (auto intro: ref_inj)
  then show "x = y" by (rule prod_eqI)
qed

lemma key_of_mem:
  assumes "covers L T" "fst p \<in> set L" "snd p \<in> set L"
  shows "key_of L p \<in> set (link_keys L T) \<longleftrightarrow> p \<in> set T"
proof -
  have "key_of L p \<in> key_of L ` set (firsts T) \<longleftrightarrow> p \<in> set (firsts T)"
    using key_of_inj[OF assms] by (auto simp: inj_on_def)
  then show ?thesis by (simp add: link_keys_def)
qed

lemma firsts_old: "p \<in> set T \<Longrightarrow> firsts (T @ [p]) = firsts T"
  by (simp add: firsts_snoc)

lemma firsts_new: "p \<notin> set T \<Longrightarrow> firsts (T @ [p]) = firsts T @ [p]"
  by (simp add: firsts_snoc)

lemma count_list_notin: "p \<notin> set T \<Longrightarrow> count_list T p = 0"
  by (simp add: count_list_0_iff)

lemma links_of_new:
  assumes "p \<notin> set T"
  shows "links_of L (T @ [p]) =
     links_of L T @ [\<lparr>source = ref L (fst p), target = ref L (snd p), link_value = 1\<rparr>]"
proof -
  have "map (link_of L (T @ [p])) (firsts T) = map (link_of L T) (firsts T)"
    using assms by (intro map_cong) (auto simp: link_of_def count_list_snoc)
  moreover have "link_of L (T @ [p]) p =
      \<lparr>source = ref L (fst p), target = ref L (snd p), link_value = 1\<rparr>"
    using assms by (simp add: link_of_def count_list_snoc count_list_notin)
  ultimately show ?thesis using assms by (simp add: links_of_def firsts_new)
qed

lemma linkIndex_of_new:
  assumes "covers L T" "fst p \<in> set L" "snd p \<in> set L" "p \<notin> set T"
  shows "linkIndex_of L (T @ [p]) = (linkIndex_of L T)(key_of L p \<mapsto> length (links_of L T))"
proof
  fix k
  have n: "key_of L p \<notin> set (link_keys L T)"
    using key_of_mem[OF assms(1-3)] assms(4) by simp
  have ks: "link_keys L (T @ [p]) = link_keys L T @ [key_of L p]"
    using assms(4) by (simp add: link_keys_def firsts_new)
  have len: "length (links_of L T) = length (link_keys L T)"
    by (simp add: links_of_def link_keys_def)
  show "linkIndex_of L (T @ [p]) k
      = ((linkIndex_of L T)(key_of L p \<mapsto> length (links_of L T))) k"
    using n by (auto simp: linkIndex_of_def ks len pos_snoc_new pos_append_in)
qed

lemma links_of_old:
  assumes "p \<in> set T"
  shows "links_of L (T @ [p]) =
     (links_of L T)[pos (firsts T) p :=
        (links_of L T ! pos (firsts T) p)\<lparr>link_value :=
           link_value (links_of L T ! pos (firsts T) p) + 1\<rparr>]"
proof (rule nth_equalityI)
  show "length (links_of L (T @ [p])) = length ((links_of L T)[pos (firsts T) p :=
        (links_of L T ! pos (firsts T) p)\<lparr>link_value :=
           link_value (links_of L T ! pos (firsts T) p) + 1\<rparr>])"
    using assms by (simp add: links_of_def firsts_old)
next
  fix i
  assume "i < length (links_of L (T @ [p]))"
  then have i: "i < length (firsts T)" using assms by (simp add: links_of_def firsts_old)
  have pm: "p \<in> set (firsts T)" using assms by simp
  have j: "pos (firsts T) p < length (firsts T)" using pm by (rule pos_less)
  show "links_of L (T @ [p]) ! i = (links_of L T)[pos (firsts T) p :=
        (links_of L T ! pos (firsts T) p)\<lparr>link_value :=
           link_value (links_of L T ! pos (firsts T) p) + 1\<rparr>] ! i"
  proof (cases "i = pos (firsts T) p")
    case True
    then have "firsts T ! i = p" using pm by (simp add: nth_pos)
    then show ?thesis using True i assms
      by (simp add: links_of_def firsts_old link_of_def count_list_snoc)
  next
    case False
    then have "firsts T ! i \<noteq> p"
      using pos_nth_distinct[of "firsts T" i] i by auto
    then show ?thesis using False i assms
      by (simp add: links_of_def firsts_old link_of_def count_list_snoc)
  qed
qed

lemma getLinkIndex_state_of:
  assumes "covers L T" "a \<in> set L" "b \<in> set L"
  shows "getLinkIndex (ref L a) (ref L b) (state_of L T) = Inr (state_of L (T @ [(a, b)]))"
proof (cases "(a, b) \<in> set T")
  case False
  have k: "linkKey (ref L a) (ref L b) = key_of L (a, b)" by (simp add: key_of_def)
  have "key_of L (a, b) \<notin> set (link_keys L T)"
    using key_of_mem[of L T "(a, b)"] assms False by simp
  then have g: "js_get (linkIndex_of L T) (key_of L (a, b)) = Undefined"
    using linkKey_not_inherited[of "ref L a" "ref L b"]
    by (simp add: js_get_def linkIndex_of_def k)
  have "state_of L (T @ [(a, b)]) =
      (state_of L T)\<lparr>linkIndex := (linkIndex_of L T)(key_of L (a, b) \<mapsto> length (links_of L T)),
         links := links_of L T @ [\<lparr>source = ref L a, target = ref L b, link_value = 1\<rparr>]\<rparr>"
    using assms False links_of_new[of "(a, b)" T L] linkIndex_of_new[of L T "(a, b)"]
    by (simp add: state_of_def)
  then show ?thesis using g by (simp add: getLinkIndex_def k state_of_def)
next
  case True
  have k: "linkKey (ref L a) (ref L b) = key_of L (a, b)" by (simp add: key_of_def)
  have m: "key_of L (a, b) \<in> set (link_keys L T)"
    using key_of_mem[of L T "(a, b)"] assms True by simp
  have p: "pos (link_keys L T) (key_of L (a, b)) = pos (firsts T) (a, b)"
    unfolding link_keys_def using key_of_inj[of L T "(a, b)"] assms
    by (intro pos_map) simp_all
  have g: "js_get (linkIndex_of L T) (key_of L (a, b)) = Own (pos (firsts T) (a, b))"
    using m p by (simp add: js_get_def linkIndex_of_def)
  have j: "pos (firsts T) (a, b) < length (links_of L T)"
    using True pos_less[of "(a, b)" "firsts T"] by (simp add: links_of_def)
  have "link_keys L (T @ [(a, b)]) = link_keys L T"
    using True by (simp add: link_keys_def firsts_old)
  then have "linkIndex_of L (T @ [(a, b)]) = linkIndex_of L T"
    by (simp add: linkIndex_of_def cong: if_cong)
  then have "state_of L (T @ [(a, b)]) =
      (state_of L T)\<lparr>links := (links_of L T)[pos (firsts T) (a, b) :=
        (links_of L T ! pos (firsts T) (a, b))\<lparr>link_value :=
           link_value (links_of L T ! pos (firsts T) (a, b)) + 1\<rparr>]\<rparr>"
    using links_of_old[OF True, of L] by (simp add: state_of_def)
  then show ?thesis using g j by (simp add: getLinkIndex_def k state_of_def)
qed

subsection \<open>One entry, and the loop\<close>

lemma ref_append:
  assumes "a \<in> set L \<or> a \<in> set object_prototype_keys"
  shows "ref (L @ M) a = ref L a"
proof (induction M rule: rev_induct)
  case Nil
  show ?case by simp
next
  case (snoc x xs)
  have "ref ((L @ xs) @ [x]) a = ref (L @ xs) a"
    using assms by (intro ref_snoc) auto
  then show ?case using snoc by simp
qed

lemma covers_append: "covers L T \<Longrightarrow> covers (L @ M) T"
  by (auto simp: covers_def)

lemma covers_step: "covers L T \<Longrightarrow> a \<in> set L \<Longrightarrow> b \<in> set L \<Longrightarrow> covers L (T @ [(a, b)])"
  by (auto simp: covers_def)

lemma addItem_state_of:
  assumes "covers L T"
  shows "addItem item (state_of L T) = Inr (state_of (L @ chain item) (T @ steps item))"
proof -
  let ?ip = "ip_address item" and ?api = "''API - JSON''" and ?h = "hostname item"
    and ?p = "path item" and ?m = "http_method item"
  let ?L1 = "L @ [?ip]"
  let ?L2 = "?L1 @ [?api]"
  let ?L3 = "?L2 @ [?h]"
  let ?L4 = "?L3 @ [?p]"
  let ?L5 = "?L4 @ [?m]"
  have L5: "?L5 = L @ chain item" by (simp add: chain_def)
  have c1: "covers ?L1 T" using assms by (rule covers_snoc)
  have c2: "covers ?L2 T" using c1 by (rule covers_snoc)
  have c3: "covers ?L3 T" using c2 by (rule covers_snoc)
  have c4: "covers ?L4 T" using c3 by (rule covers_snoc)
  have c5: "covers ?L5 T" using c4 by (rule covers_snoc)
  have n1: "getNodeIndex ?ip (state_of L T) = (ref ?L1 ?ip, state_of ?L1 T)"
    using assms by (rule getNodeIndex_state_of)
  have n2: "getNodeIndex ?api (state_of ?L1 T) = (ref ?L2 ?api, state_of ?L2 T)"
    using c1 by (rule getNodeIndex_state_of)
  have n3: "getNodeIndex ?h (state_of ?L2 T) = (ref ?L3 ?h, state_of ?L3 T)"
    using c2 by (rule getNodeIndex_state_of)
  have n4: "getNodeIndex ?p (state_of ?L3 T) = (ref ?L4 ?p, state_of ?L4 T)"
    using c3 by (rule getNodeIndex_state_of)
  have n5: "getNodeIndex ?m (state_of ?L4 T) = (ref ?L5 ?m, state_of ?L5 T)"
    using c4 by (rule getNodeIndex_state_of)
  have r1: "ref ?L1 ?ip = ref ?L5 ?ip"
    using ref_append[of ?ip ?L1 "[?api, ?h, ?p, ?m]"] by simp
  have r2: "ref ?L2 ?api = ref ?L5 ?api"
    using ref_append[of ?api ?L2 "[?h, ?p, ?m]"] by simp
  have r3: "ref ?L3 ?h = ref ?L5 ?h"
    using ref_append[of ?h ?L3 "[?p, ?m]"] by simp
  have r4: "ref ?L4 ?p = ref ?L5 ?p"
    using ref_append[of ?p ?L4 "[?m]"] by simp
  let ?T1 = "T @ [(?ip, ?api)]"
  let ?T2 = "?T1 @ [(?api, ?h)]"
  let ?T3 = "?T2 @ [(?h, ?p)]"
  let ?T4 = "?T3 @ [(?p, ?m)]"
  have T4: "?T4 = T @ steps item" by (simp add: steps_def)
  have d1: "covers ?L5 ?T1" using c5 by (rule covers_step) simp_all
  have d2: "covers ?L5 ?T2" using d1 by (rule covers_step) simp_all
  have d3: "covers ?L5 ?T3" using d2 by (rule covers_step) simp_all
  have l1: "getLinkIndex (ref ?L5 ?ip) (ref ?L5 ?api) (state_of ?L5 T) = Inr (state_of ?L5 ?T1)"
    using c5 by (rule getLinkIndex_state_of) simp_all
  have l2: "getLinkIndex (ref ?L5 ?api) (ref ?L5 ?h) (state_of ?L5 ?T1) = Inr (state_of ?L5 ?T2)"
    using d1 by (rule getLinkIndex_state_of) simp_all
  have l3: "getLinkIndex (ref ?L5 ?h) (ref ?L5 ?p) (state_of ?L5 ?T2) = Inr (state_of ?L5 ?T3)"
    using d2 by (rule getLinkIndex_state_of) simp_all
  have l4: "getLinkIndex (ref ?L5 ?p) (ref ?L5 ?m) (state_of ?L5 ?T3) = Inr (state_of ?L5 ?T4)"
    using d3 by (rule getLinkIndex_state_of) simp_all
  have "addItem item (state_of L T) = Inr (state_of ?L5 ?T4)"
    unfolding addItem_def Let_def n1 n2 n3 n4 n5 prod.case r1 r2 r3 r4 l1 andThen.simps l2 l3 l4
    by (rule refl)
  then show ?thesis unfolding L5 T4 .
qed

lemma covers_item:
  assumes "covers L T"
  shows "covers (L @ chain item) (T @ steps item)"
  using assms by (auto simp: covers_def chain_def steps_def)

lemma forEach_addItem:
  assumes "covers L T"
  shows "forEach addItem node_data (state_of L T)
     = Inr (state_of (L @ labels node_data) (T @ transitions node_data))"
  using assms
proof (induction node_data arbitrary: L T)
  case Nil
  then show ?case by (simp add: labels_def transitions_def)
next
  case (Cons item node_data)
  have "forEach addItem (item # node_data) (state_of L T)
      = forEach addItem node_data (state_of (L @ chain item) (T @ steps item))"
    by (simp add: addItem_state_of[OF Cons.prems])
  also have "\<dots> = Inr (state_of ((L @ chain item) @ labels node_data)
      ((T @ steps item) @ transitions node_data))"
    by (rule Cons.IH[OF covers_item[OF Cons.prems]])
  finally show ?case by (simp add: labels_def transitions_def)
qed

lemma state_of_empty:
  "state_of [] [] = \<lparr>nodes = [], nodeIndex = Map.empty, links = [], linkIndex = Map.empty\<rparr>"
  by (simp add: state_of_def nodes_of_def nodeIndex_of_def links_of_def linkIndex_of_def
      link_keys_def node_names_def)

lemma createSankeyData_eq:
  "createSankeyData node_data =
     Inr (nodes_of (labels node_data), links_of (labels node_data) (transitions node_data))"
proof -
  have "covers [] []" by (simp add: covers_def)
  from forEach_addItem[OF this, of node_data] show ?thesis
    by (simp add: createSankeyData_def state_of_empty[symmetric]) (simp add: state_of_def)
qed

subsection \<open>Weights by label\<close>

lemma map_name_nodes_of [simp]: "map name (nodes_of L) = node_names L"
  unfolding nodes_of_def by (simp add: comp_def case_prod_unfold map_snd_enumerate[simplified comp_def])

lemma nth_nodes_of:
  "i < length (node_names L) \<Longrightarrow> nodes_of L ! i = \<lparr>name = node_names L ! i, index = i\<rparr>"
  by (simp add: nodes_of_def nth_enumerate_eq)

lemma indexOf_nodes_of:
  "indexOf (nodes_of L) a =
     (if a \<in> set (node_names L) then Some (pos (node_names L) a) else None)"
  by (simp add: indexOf_def nth_nodes_of pos_less)

lemma filter_eq_distinct:
  "distinct xs \<Longrightarrow> filter (\<lambda>p. p = x) xs = (if x \<in> set xs then [x] else [])"
  by (induction xs) auto

lemma ref_eq_Own_iff:
  assumes "a \<in> set (node_names L)" "c \<in> set L"
  shows "ref L c = Own (pos (node_names L) a) \<longleftrightarrow> c = a"
proof
  assume e: "ref L c = Own (pos (node_names L) a)"
  have a: "a \<in> set L" "a \<notin> set object_prototype_keys"
    using assms(1) by (simp_all add: set_node_names)
  then have "ref L a = Own (pos (node_names L) a)" by (simp add: ref_def)
  with e have "ref L c = ref L a" by simp
  then show "c = a" using assms(2) a(1) by (intro ref_inj) simp_all
next
  assume "c = a"
  then show "ref L c = Own (pos (node_names L) a)"
    using assms(1) by (simp add: ref_def set_node_names)
qed

lemma weightBetween_eq:
  assumes "covers L T"
  shows "weightBetween (nodes_of L, links_of L T) a b =
     (if a \<in> set object_prototype_keys \<or> b \<in> set object_prototype_keys then 0
      else count_list T (a, b))"
proof (cases "a \<in> set (node_names L) \<and> b \<in> set (node_names L)")
  case False
  then have w: "weightBetween (nodes_of L, links_of L T) a b = 0"
    by (auto simp: weightBetween_def indexOf_nodes_of)
  have "count_list T (a, b) = 0"
    if "a \<notin> set object_prototype_keys" "b \<notin> set object_prototype_keys"
  proof -
    from that False have "a \<notin> set L \<or> b \<notin> set L" by (simp add: set_node_names)
    then have "(a, b) \<notin> set T" using assms by (auto simp: covers_def)
    then show ?thesis by (rule count_list_notin)
  qed
  then show ?thesis using w by auto
next
  case True
  then have own: "a \<notin> set object_prototype_keys" "b \<notin> set object_prototype_keys"
    by (simp_all add: set_node_names)
  let ?i = "pos (node_names L) a" and ?j = "pos (node_names L) b"
  have sel: "(source (link_of L T p) = Own ?i \<and> target (link_of L T p) = Own ?j) \<longleftrightarrow> p = (a, b)"
    if "p \<in> set (firsts T)" for p
  proof -
    obtain c d where p: "p = (c, d)" by (cases p)
    from that assms p have "c \<in> set L" "d \<in> set L" by (auto simp: covers_def)
    then have "ref L c = Own ?i \<longleftrightarrow> c = a" "ref L d = Own ?j \<longleftrightarrow> d = b"
      using True ref_eq_Own_iff[of a L c] ref_eq_Own_iff[of b L d] by simp_all
    then show ?thesis by (simp add: link_of_def p)
  qed
  have "filter (\<lambda>l. source l = Own ?i \<and> target l = Own ?j) (links_of L T)
      = map (link_of L T) (filter (\<lambda>p. p = (a, b)) (firsts T))"
    unfolding links_of_def filter_map comp_def
    by (intro arg_cong[where f = "map (link_of L T)"] filter_cong refl) (rule sel)
  then have "weightBetween (nodes_of L, links_of L T) a b
      = sum_list (map link_value (map (link_of L T) (filter (\<lambda>p. p = (a, b)) (firsts T))))"
    using True by (simp add: weightBetween_def indexOf_nodes_of)
  also have "\<dots> = count_list T (a, b)"
    by (simp add: filter_eq_distinct link_of_def count_list_notin)
  finally show ?thesis using own by simp
qed

lemma covers_labels: "covers (labels node_data) (transitions node_data)"
proof -
  have "covers ([] @ labels node_data) ([] @ transitions node_data)"
  proof (induction node_data rule: rev_induct)
    case Nil
    show ?case by (simp add: covers_def labels_def transitions_def)
  next
    case (snoc item node_data)
    from covers_item[OF snoc, of item] show ?case
      by (simp add: labels_def transitions_def)
  qed
  then show ?thesis by simp
qed

lemma mset_transitions:
  "mset (transitions node_data) = (\<Sum>item \<in># mset node_data. mset (steps item))"
  unfolding transitions_def mset_concat
  by (induction node_data) simp_all

lemma count_list_transitions:
  "count_list (transitions node_data) p = count (\<Sum>item \<in># mset node_data. mset (steps item)) p"
  by (simp add: mset_transitions[symmetric] count_mset)

lemma labelOf_ref:
  assumes "a \<in> set L"
  shows "labelOf (nodes_of L) (ref L a) = a"
proof (cases "a \<in> set object_prototype_keys")
  case True
  then show ?thesis by (simp add: labelOf_def ref_def)
next
  case False
  then have m: "a \<in> set (node_names L)" using assms by (simp add: set_node_names)
  then show ?thesis using False assms
    by (simp add: labelOf_def ref_def pos_less nth_nodes_of nth_pos)
qed

lemma weightedTransitions_eq:
  assumes "covers L T"
  shows "weightedTransitions (nodes_of L, links_of L T)
     = image_mset (\<lambda>p. (fst p, snd p, count (mset T) p)) (mset_set (set T))"
proof -
  have "map (\<lambda>l. (labelOf (nodes_of L) (source l), labelOf (nodes_of L) (target l), link_value l))
          (links_of L T)
      = map (\<lambda>p. (fst p, snd p, count (mset T) p)) (firsts T)"
    unfolding links_of_def map_map comp_def
  proof (rule map_cong[OF refl])
    fix p assume "p \<in> set (firsts T)"
    then have "fst p \<in> set L" "snd p \<in> set L" using assms by (auto simp: covers_def)
    then show "(labelOf (nodes_of L) (source (link_of L T p)),
           labelOf (nodes_of L) (target (link_of L T p)), link_value (link_of L T p))
        = (fst p, snd p, count (mset T) p)"
      by (simp add: link_of_def labelOf_ref count_mset)
  qed
  moreover have "mset (firsts T) = mset_set (set T)"
    using mset_set_set[of "firsts T"] by simp
  ultimately show ?thesis by (simp add: weightedTransitions_def)
qed

subsection \<open>The claims on createSankeyData\<close>

text \<open>
  C7. Two lists with the same entries in a different order give graphs with the same weights:
  for every ordered pair of labels, the weight of the link between the nodes that carry them
  (found through their \<^verbatim>\<open>index\<close> fields) is the same in both graphs, and the two graphs have
  the same multiset of weighted transitions. Neither run fails.
\<close>

theorem createSankeyData_order_independent:
  assumes "mset node_data = mset node_data'"
  shows "\<exists>g g'. createSankeyData node_data = Inr g \<and> createSankeyData node_data' = Inr g'
       \<and> (\<forall>a b. weightBetween g a b = weightBetween g' a b)
       \<and> weightedTransitions g = weightedTransitions g'"
proof -
  let ?g = "\<lambda>rs. (nodes_of (labels rs), links_of (labels rs) (transitions rs))"
  have T: "mset (transitions node_data) = mset (transitions node_data')"
    by (simp add: mset_transitions assms)
  then have c: "count_list (transitions node_data) p = count_list (transitions node_data') p" for p
    by (metis count_mset)
  have s: "set (transitions node_data) = set (transitions node_data')"
    using T by (rule mset_eq_setD)
  have w: "weightBetween (?g node_data) a b = weightBetween (?g node_data') a b" for a b
    by (simp add: weightBetween_eq[OF covers_labels] c)
  have m: "weightedTransitions (?g node_data) = weightedTransitions (?g node_data')"
    by (simp add: weightedTransitions_eq[OF covers_labels] T s)
  show ?thesis
    using w m by (simp add: createSankeyData_eq)
qed

text \<open>C7 at a list of two entries and its reversal.\<close>

theorem createSankeyData_order_independent_witness:
  "\<exists>g g'. createSankeyData [entry0, entry1] = Inr g \<and> createSankeyData [entry1, entry0] = Inr g'
       \<and> (\<forall>a b. weightBetween g a b = weightBetween g' a b)
       \<and> weightedTransitions g = weightedTransitions g'"
proof -
  have "mset [entry0, entry1] = mset [entry1, entry0]" by simp
  from createSankeyData_order_independent[OF this] show ?thesis .
qed

text \<open>
  The remaining two claims fail on one input class: a label that is a key of
  \<^verbatim>\<open>Object.prototype\<close>. The read \<^verbatim>\<open>nodeIndex[name]\<close> then finds the inherited member,
  \<^verbatim>\<open>getNodeIndex\<close> creates no node and returns the member, and the links of the entry carry
  it as \<^verbatim>\<open>source\<close> or \<^verbatim>\<open>target\<close>.
\<close>

lemmas sankey_eval = createSankeyData_eq labels_def transitions_def chain_def steps_def
  nodes_of_def links_of_def link_of_def node_names_def firsts_def ref_def pos_def
  object_prototype_keys_def entry0_def

text \<open>
  C6 at two identical entries whose hostname is \<^verbatim>\<open>constructor\<close> (the five labels are distinct
  strings): the graph has four nodes, not five, and two of its four links end in no node.
\<close>

theorem createSankeyData_inherited_hostname:
  "createSankeyData (replicate 2 (entry0\<lparr>hostname := ''constructor''\<rparr>)) =
     Inr ([\<lparr>name = ''a'', index = 0\<rparr>, \<lparr>name = ''API - JSON'', index = 1\<rparr>,
           \<lparr>name = ''/p'', index = 2\<rparr>, \<lparr>name = ''GET'', index = 3\<rparr>],
          [\<lparr>source = Own 0, target = Own 1, link_value = 2\<rparr>,
           \<lparr>source = Own 1, target = Proto ''constructor'', link_value = 2\<rparr>,
           \<lparr>source = Proto ''constructor'', target = Own 2, link_value = 2\<rparr>,
           \<lparr>source = Own 2, target = Own 3, link_value = 2\<rparr>])"
  by (simp add: sankey_eval numeral_2_eq_2)

text \<open>
  C10 at one entry whose hostname is \<^verbatim>\<open>toString\<close>: two links have an end that is no node
  position.
\<close>

theorem createSankeyData_dangling_edge:
  "createSankeyData [entry0\<lparr>hostname := ''toString''\<rparr>] =
     Inr ([\<lparr>name = ''a'', index = 0\<rparr>, \<lparr>name = ''API - JSON'', index = 1\<rparr>,
           \<lparr>name = ''/p'', index = 2\<rparr>, \<lparr>name = ''GET'', index = 3\<rparr>],
          [\<lparr>source = Own 0, target = Own 1, link_value = 1\<rparr>,
           \<lparr>source = Own 1, target = Proto ''toString'', link_value = 1\<rparr>,
           \<lparr>source = Proto ''toString'', target = Own 2, link_value = 1\<rparr>,
           \<lparr>source = Own 2, target = Own 3, link_value = 1\<rparr>])"
  by (simp add: sankey_eval)

subsection \<open>Entries with no inherited label\<close>

lemma firsts_distinct: "distinct xs \<Longrightarrow> firsts xs = xs"
  by (simp add: firsts_def distinct_remdups_id)

lemma map_index_nodes_of: "map index (nodes_of L) = [0..<length (node_names L)]"
  unfolding nodes_of_def
  by (simp add: comp_def case_prod_unfold map_fst_enumerate[simplified comp_def])

lemma firsts_append_subset: "set ys \<subseteq> set xs \<Longrightarrow> firsts (xs @ ys) = firsts xs"
proof (induction ys rule: rev_induct)
  case Nil
  show ?case by simp
next
  case (snoc y ys)
  then have "firsts ((xs @ ys) @ [y]) = firsts (xs @ ys)"
    by (subst firsts_snoc) auto
  then show ?case using snoc by simp
qed

lemma firsts_concat_replicate:
  assumes "distinct xs" "0 < N"
  shows "firsts (concat (replicate N xs)) = xs"
proof -
  obtain M where N: "N = Suc M" using assms(2) by (cases N) auto
  have "set (concat (replicate M xs)) \<subseteq> set xs" by auto
  then have "firsts (xs @ concat (replicate M xs)) = firsts xs"
    by (rule firsts_append_subset)
  then show ?thesis using assms(1) by (simp add: N firsts_distinct)
qed

lemma count_list_concat_replicate:
  "count_list (concat (replicate N xs)) p = N * count_list xs p"
  by (induction N) (simp_all add: count_list_append)

lemma count_list_distinct: "distinct xs \<Longrightarrow> p \<in> set xs \<Longrightarrow> count_list xs p = 1"
  by (induction xs) (auto simp: count_list_0_iff)

text \<open>
  What C10 asks holds of the node list for every input, and of the links when no label is a
  key of \<^verbatim>\<open>Object.prototype\<close>: every node's \<^verbatim>\<open>index\<close> is its position in the node list, and
  both ends of every link are positions of that list.
\<close>

theorem createSankeyData_wellformed:
  "\<exists>ns ls. createSankeyData node_data = Inr (ns, ls)
     \<and> map index ns = [0..<length ns]
     \<and> (set (labels node_data) \<inter> set object_prototype_keys = {} \<longrightarrow>
          (\<forall>l \<in> set ls. \<exists>i j. source l = Own i \<and> target l = Own j
              \<and> i < length ns \<and> j < length ns))"
proof -
  let ?L = "labels node_data" and ?T = "transitions node_data"
  have a: "map index (nodes_of ?L) = [0..<length (nodes_of ?L)]"
    by (simp add: map_index_nodes_of)
  have b: "\<exists>i j. source l = Own i \<and> target l = Own j
      \<and> i < length (nodes_of ?L) \<and> j < length (nodes_of ?L)"
    if own: "set ?L \<inter> set object_prototype_keys = {}" and l: "l \<in> set (links_of ?L ?T)" for l
  proof -
    from l obtain p where p: "p \<in> set ?T" "l = link_of ?L ?T p"
      by (auto simp: links_of_def)
    then have m: "fst p \<in> set ?L" "snd p \<in> set ?L"
      using covers_labels[of node_data] by (auto simp: covers_def)
    then have n: "fst p \<in> set (node_names ?L)" "snd p \<in> set (node_names ?L)"
      using own by (auto simp: set_node_names)
    have "source l = Own (pos (node_names ?L) (fst p))" "target l = Own (pos (node_names ?L) (snd p))"
      using m own p(2) by (auto simp: link_of_def ref_def)
    then show ?thesis using pos_less[OF n(1)] pos_less[OF n(2)] by simp
  qed
  show ?thesis using a b by (simp add: createSankeyData_eq)
qed

text \<open>The same at two entries.\<close>

theorem createSankeyData_wellformed_witness:
  "\<exists>ns ls. createSankeyData [entry0, entry1] = Inr (ns, ls)
     \<and> map index ns = [0..<length ns]
     \<and> list_all (\<lambda>l. \<exists>i j. source l = Own i \<and> target l = Own j
              \<and> i < length ns \<and> j < length ns) ls"
proof -
  have h: "set (labels [entry0, entry1]) \<inter> set object_prototype_keys = {}"
    by (simp add: labels_def chain_def entry0_def entry1_def object_prototype_keys_def)
  from createSankeyData_wellformed[of "[entry0, entry1]"] h
  show ?thesis by (simp add: list_all_iff)
qed

text \<open>
  What C6 asks holds when no label is a key of \<^verbatim>\<open>Object.prototype\<close>: \<open>N \<ge> 1\<close> copies of an
  entry whose five labels are distinct give the five nodes in chain order and the four links
  of the chain, each of weight \<open>N\<close>.
\<close>

theorem createSankeyData_identical:
  assumes "0 < N" "distinct (chain item)" "set (chain item) \<inter> set object_prototype_keys = {}"
  shows "createSankeyData (replicate N item) =
     Inr ([\<lparr>name = ip_address item, index = 0\<rparr>, \<lparr>name = ''API - JSON'', index = 1\<rparr>,
           \<lparr>name = hostname item, index = 2\<rparr>, \<lparr>name = path item, index = 3\<rparr>,
           \<lparr>name = http_method item, index = 4\<rparr>],
          [\<lparr>source = Own 0, target = Own 1, link_value = N\<rparr>,
           \<lparr>source = Own 1, target = Own 2, link_value = N\<rparr>,
           \<lparr>source = Own 2, target = Own 3, link_value = N\<rparr>,
           \<lparr>source = Own 3, target = Own 4, link_value = N\<rparr>])"
proof -
  let ?L = "labels (replicate N item)" and ?T = "transitions (replicate N item)"
  have L: "?L = concat (replicate N (chain item))"
    by (simp add: labels_def map_replicate)
  have T: "?T = concat (replicate N (steps item))"
    by (simp add: transitions_def map_replicate)
  have f: "filter (\<lambda>l. l \<notin> set object_prototype_keys) ?L = ?L"
    using assms(3) unfolding L by (intro filter_True) auto
  have nn: "node_names ?L = chain item"
    unfolding node_names_def f unfolding L using assms(1,2) by (rule firsts_concat_replicate[rotated])
  have ds: "distinct (steps item)" using assms(2) by (auto simp: chain_def steps_def)
  have ft: "firsts ?T = steps item"
    unfolding T using ds assms(1) by (rule firsts_concat_replicate)
  have cnt: "count_list ?T p = N" if "p \<in> set (steps item)" for p
    unfolding T by (simp add: count_list_concat_replicate count_list_distinct[OF ds that])
  have sL: "set ?L = set (chain item)" unfolding L using assms(1) by auto
  have r: "ref ?L l = Own (pos (chain item) l)" if "l \<in> set (chain item)" for l
    using that assms(3) sL by (auto simp: ref_def nn)
  have ch: "chain item = [ip_address item, ''API - JSON'', hostname item, path item, http_method item]"
    by (simp add: chain_def)
  have p0: "pos (chain item) (ip_address item) = 0"
    and p1: "pos (chain item) ''API - JSON'' = 1"
    and p2: "pos (chain item) (hostname item) = 2"
    and p3: "pos (chain item) (path item) = 3"
    and p4: "pos (chain item) (http_method item) = 4"
    using assms(2) unfolding ch pos_def by auto
  have ns: "nodes_of ?L = [\<lparr>name = ip_address item, index = 0\<rparr>, \<lparr>name = ''API - JSON'', index = 1\<rparr>,
           \<lparr>name = hostname item, index = 2\<rparr>, \<lparr>name = path item, index = 3\<rparr>,
           \<lparr>name = http_method item, index = 4\<rparr>]"
    unfolding nodes_of_def nn by (simp add: chain_def)
  have ls: "links_of ?L ?T = [\<lparr>source = Own 0, target = Own 1, link_value = N\<rparr>,
           \<lparr>source = Own 1, target = Own 2, link_value = N\<rparr>,
           \<lparr>source = Own 2, target = Own 3, link_value = N\<rparr>,
           \<lparr>source = Own 3, target = Own 4, link_value = N\<rparr>]"
    unfolding links_of_def ft
    by (simp add: steps_def link_of_def cnt r ch p0[unfolded ch] p1[unfolded ch] p2[unfolded ch]
        p3[unfolded ch] p4[unfolded ch])
  show ?thesis unfolding createSankeyData_eq ns ls ..
qed

text \<open>The same at two copies of one entry.\<close>

theorem createSankeyData_identical_witness:
  "createSankeyData (replicate 2 entry0) =
     Inr ([\<lparr>name = ''a'', index = 0\<rparr>, \<lparr>name = ''API - JSON'', index = 1\<rparr>,
           \<lparr>name = ''h'', index = 2\<rparr>, \<lparr>name = ''/p'', index = 3\<rparr>,
           \<lparr>name = ''GET'', index = 4\<rparr>],
          [\<lparr>source = Own 0, target = Own 1, link_value = 2\<rparr>,
           \<lparr>source = Own 1, target = Own 2, link_value = 2\<rparr>,
           \<lparr>source = Own 2, target = Own 3, link_value = 2\<rparr>,
           \<lparr>source = Own 3, target = Own 4, link_value = 2\<rparr>])"
proof -
  have h: "(0::nat) < 2" "distinct (chain entry0)"
    "set (chain entry0) \<inter> set object_prototype_keys = {}"
    by (simp_all add: chain_def entry0_def object_prototype_keys_def)
  from createSankeyData_identical[OF h] show ?thesis by (simp add: entry0_def)
qed

section \<open>Properties of organizeData\<close>

subsection \<open>The calendar\<close>

lemma div_Suc_int:
  fixes y n :: int
  assumes "0 < n"
  shows "(y + 1) div n = y div n + (if (y + 1) mod n = 0 then 1 else 0)"
proof -
  let ?q = "y div n" and ?r = "y mod n"
  have y: "y = n * ?q + ?r" by simp
  have r: "0 \<le> ?r" "?r < n" using assms by simp_all
  show ?thesis
  proof (cases "?r + 1 < n")
    case True
    have e: "y + 1 = n * ?q + (?r + 1)" using y by linarith
    have "(y + 1) div n = ?q" using e _ True by (rule int_div_pos_eq) (use r in simp)
    moreover have "(y + 1) mod n = ?r + 1" using e _ True by (rule int_mod_pos_eq) (use r in simp)
    ultimately show ?thesis using r by simp
  next
    case False
    then have "?r + 1 = n" using r by linarith
    moreover have "n * (?q + 1) = n * ?q + n" by (simp add: distrib_left)
    ultimately have e: "y + 1 = n * (?q + 1) + 0" using y by linarith
    have "(y + 1) div n = ?q + 1" using e _ assms by (rule int_div_pos_eq) simp
    moreover have "(y + 1) mod n = 0" using e _ assms by (rule int_mod_pos_eq) simp
    ultimately show ?thesis by simp
  qed
qed

lemma leap_step:
  fixes y :: int
  shows "0 \<le> (y + 1) div 4 - (y + 1) div 100 + (y + 1) div 400 - (y div 4 - y div 100 + y div 400)"
    and "(y + 1) div 4 - (y + 1) div 100 + (y + 1) div 400 - (y div 4 - y div 100 + y div 400) \<le> 1"
proof -
  have a: "(y + 1) mod 4 = 0" if "(y + 1) mod 100 = 0"
  proof -
    have "(4::int) dvd 100" by simp
    moreover from that have "100 dvd (y + 1)" by (simp add: mod_eq_0_iff_dvd)
    ultimately have "4 dvd (y + 1)" by (rule dvd_trans)
    then show ?thesis by (simp add: mod_eq_0_iff_dvd)
  qed
  have b: "(y + 1) mod 100 = 0" if "(y + 1) mod 400 = 0"
  proof -
    have "(100::int) dvd 400" by simp
    moreover from that have "400 dvd (y + 1)" by (simp add: mod_eq_0_iff_dvd)
    ultimately have "100 dvd (y + 1)" by (rule dvd_trans)
    then show ?thesis by (simp add: mod_eq_0_iff_dvd)
  qed
  show "0 \<le> (y + 1) div 4 - (y + 1) div 100 + (y + 1) div 400 - (y div 4 - y div 100 + y div 400)"
    using a b by (simp add: div_Suc_int[of 4 y] div_Suc_int[of 100 y] div_Suc_int[of 400 y])
  show "(y + 1) div 4 - (y + 1) div 100 + (y + 1) div 400 - (y div 4 - y div 100 + y div 400) \<le> 1"
    using a b by (simp add: div_Suc_int[of 4 y] div_Suc_int[of 100 y] div_Suc_int[of 400 y])
qed


lemma year_step_arith:
  fixes y a b c a' b' c' :: int
  assumes "0 \<le> a' - b' + c' - (a - b + c)" "a' - b' + c' - (a - b + c) \<le> 1"
  shows "365 \<le> 365 * (y + 1) + a' - b' + c' - (365 * y + a - b + c)
    \<and> 365 * (y + 1) + a' - b' + c' - (365 * y + a - b + c) \<le> 366"
  using assms by simp

lemma daysBeforeYear_step:
  "365 \<le> daysBeforeYear (y + 1) - daysBeforeYear y \<and> daysBeforeYear (y + 1) - daysBeforeYear y \<le> 366"
  unfolding daysBeforeYear_def by (rule year_step_arith) (rule leap_step)+

lemma daysBeforeMonth_step:
  assumes "0 \<le> m" "m < 11"
  shows "30 \<le> daysBeforeMonth (m + 1) - daysBeforeMonth m"
    and "daysBeforeMonth (m + 1) - daysBeforeMonth m \<le> 31"
proof -
  have "m = 0 \<or> m = 1 \<or> m = 2 \<or> m = 3 \<or> m = 4 \<or> m = 5 \<or> m = 6 \<or> m = 7 \<or> m = 8
      \<or> m = 9 \<or> m = 10"
    using assms by presburger
  then show "30 \<le> daysBeforeMonth (m + 1) - daysBeforeMonth m"
    and "daysBeforeMonth (m + 1) - daysBeforeMonth m \<le> 31"
    unfolding daysBeforeMonth_def by (elim disjE; simp)+
qed

lemma daysBeforeMonth_ends: "daysBeforeMonth 0 = 0" "daysBeforeMonth 11 = 337"
  by (simp_all add: daysBeforeMonth_def)

lemma monthStart_step:
  "28 \<le> monthStart (k + 1) - monthStart k" "monthStart (k + 1) - monthStart k \<le> 31"
proof -
  let ?j = "k - 2"
  let ?q = "?j div 12" and ?m = "?j mod 12"
  let ?y = "1970 + ?q"
  have j: "?j = 12 * ?q + ?m" by simp
  have m: "0 \<le> ?m" "?m < 12" by simp_all
  have k1: "k + 1 - 2 = ?j + 1" by simp
  have "28 \<le> monthStart (k + 1) - monthStart k \<and> monthStart (k + 1) - monthStart k \<le> 31"
  proof (cases "?m < 11")
    case True
    have e: "?j + 1 = 12 * ?q + (?m + 1)" using j by linarith
    have d: "(?j + 1) div 12 = ?q"
      using e by (rule int_div_pos_eq) (use m True in simp_all)
    have r: "(?j + 1) mod 12 = ?m + 1"
      using e by (rule int_mod_pos_eq) (use m True in simp_all)
    have "monthStart (k + 1) - monthStart k = daysBeforeMonth (?m + 1) - daysBeforeMonth ?m"
      unfolding monthStart_def k1 d r by linarith
    then show ?thesis
      using daysBeforeMonth_step[OF m(1) True] by linarith
  next
    case False
    then have m11: "?m = 11" using m by linarith
    have "12 * (?q + 1) = 12 * ?q + 12" by simp
    then have e: "?j + 1 = 12 * (?q + 1) + 0" using j m11 by linarith
    have d: "(?j + 1) div 12 = ?q + 1"
      using e by (rule int_div_pos_eq) simp_all
    have r: "(?j + 1) mod 12 = 0"
      using e by (rule int_mod_pos_eq) simp_all
    have y1: "1970 + (?q + 1) = ?y + 1" by simp
    have "monthStart (k + 1) - monthStart k
        = daysBeforeYear (?y + 1) - daysBeforeYear ?y - 337"
      unfolding monthStart_def k1 d r y1 m11 daysBeforeMonth_ends by linarith
    then show ?thesis using daysBeforeYear_step[of ?y] by linarith
  qed
  then show "28 \<le> monthStart (k + 1) - monthStart k" "monthStart (k + 1) - monthStart k \<le> 31"
    by simp_all
qed


lemma step_arith:
  fixes a b c m :: int
  assumes "28 * m \<le> a - c \<and> a - c \<le> 31 * m" "28 \<le> b - a" "b - a \<le> 31"
  shows "28 * (1 + m) \<le> b - c \<and> b - c \<le> 31 * (1 + m)"
  using assms by simp

lemma monthStart_add:
  "28 * int n \<le> monthStart (k + int n) - monthStart k \<and>
   monthStart (k + int n) - monthStart k \<le> 31 * int n"
proof (induction n)
  case 0
  show ?case by simp
next
  case (Suc n)
  have e: "monthStart (k + (1 + int n)) = monthStart ((k + int n) + 1)"
    by (rule arg_cong) simp
  show ?case
    unfolding of_nat_Suc e using Suc monthStart_step[of "k + int n"] by (rule step_arith)
qed

lemma monthStart_less: "i < j \<Longrightarrow> monthStart i < monthStart j"
proof -
  assume "i < j"
  then obtain n where n: "j = i + int (Suc n)"
    using zless_iff_Suc_zadd by blast
  from monthStart_add[of "Suc n" i] show ?thesis unfolding n by simp
qed

lemma monthStart_less_iff: "monthStart i < monthStart j \<longleftrightarrow> i < j"
  by (metis monthStart_less not_less_iff_gr_or_eq)

lemma monthStart_le_iff: "monthStart i \<le> monthStart j \<longleftrightarrow> i \<le> j"
  by (metis monthStart_less_iff not_less)

lemma monthStart_0: "monthStart 0 = 0"
  by (simp add: monthStart_def daysBeforeYear_def daysBeforeMonth_def)

lemma monthStart_bounds:
  "min (28 * k) (31 * k) \<le> monthStart k" "monthStart k \<le> max (28 * k) (31 * k)"
proof -
  have "min (28 * k) (31 * k) \<le> monthStart k \<and> monthStart k \<le> max (28 * k) (31 * k)"
  proof (cases "0 \<le> k")
    case True
    then obtain n where "k = int n" by (metis nonneg_int_cases)
    then show ?thesis using monthStart_add[of n 0] by (simp add: monthStart_0)
  next
    case False
    then obtain n where n: "k = - int n" by (metis nonpos_int_cases not_le order_less_imp_le)
    then have "0 = k + int n" by simp
    then show ?thesis using monthStart_add[of n k] monthStart_0 n by simp
  qed
  then show "min (28 * k) (31 * k) \<le> monthStart k" "monthStart k \<le> max (28 * k) (31 * k)"
    by simp_all
qed

lemma monthSearch_correct:
  assumes "d < monthStart (k + 1)" "monthStart (k - int fuel) \<le> d"
  shows "monthStart (monthSearch fuel k d) \<le> d \<and> d < monthStart (monthSearch fuel k d + 1)"
  using assms
proof (induction fuel arbitrary: k)
  case 0
  then show ?case by simp
next
  case (Suc fuel)
  show ?case
  proof (cases "monthStart k \<le> d")
    case True
    then show ?thesis using Suc.prems by simp
  next
    case False
    have "monthStart (k - 1 - int fuel) = monthStart (k - int (Suc fuel))"
      by (rule arg_cong) simp
    then have "monthStart (k - 1 - int fuel) \<le> d" using Suc.prems(2) by linarith
    moreover have "d < monthStart (k - 1 + 1)" using False by simp
    ultimately show ?thesis using Suc.IH[of "k - 1"] False by simp
  qed
qed

lemma monthOfDay_correct:
  "monthStart (monthOfDay d) \<le> d" "d < monthStart (monthOfDay d + 1)"
proof -
  let ?hi = "max (d div 28) (d div 31)" and ?lo = "min (d div 28) (d div 31)"
  have d28: "28 * (d div 28) \<le> d" "d < 28 * (d div 28) + 28"
    using div_mult_mod_eq[of d 28] pos_mod_bound[of 28 d] pos_mod_sign[of 28 d] by linarith+
  have d31: "31 * (d div 31) \<le> d" "d < 31 * (d div 31) + 31"
    using div_mult_mod_eq[of d 31] pos_mod_bound[of 31 d] pos_mod_sign[of 31 d] by linarith+
  have hi: "d < 28 * (?hi + 1)" "d < 31 * (?hi + 1)" using d28 d31 by simp_all
  have lo: "28 * ?lo \<le> d" "31 * ?lo \<le> d" using d28 d31 by simp_all
  have a: "d < monthStart (?hi + 1)"
    using monthStart_bounds(1)[of "?hi + 1"] hi by (simp add: min_def split: if_splits)
  have "monthStart ?lo \<le> d"
    using monthStart_bounds(2)[of ?lo] lo by (simp add: max_def split: if_splits)
  moreover have "?hi - int (nat (?hi - ?lo)) = ?lo" by simp
  ultimately have b: "monthStart (?hi - int (nat (?hi - ?lo))) \<le> d" by simp
  from monthSearch_correct[OF a b]
  show "monthStart (monthOfDay d) \<le> d" "d < monthStart (monthOfDay d + 1)"
    by (simp_all add: monthOfDay_def)
qed

lemma monthOfDay_unique:
  assumes "monthStart k \<le> d" "d < monthStart (k + 1)"
  shows "monthOfDay d = k"
proof (rule ccontr)
  assume n: "monthOfDay d \<noteq> k"
  show False
  proof (cases "monthOfDay d < k")
    case True
    then have "monthStart (monthOfDay d + 1) \<le> monthStart k"
      by (simp add: monthStart_le_iff)
    then show False using monthOfDay_correct(2)[of d] assms(1) by linarith
  next
    case False
    with n have "k + 1 \<le> monthOfDay d" by simp
    then have "monthStart (k + 1) \<le> monthStart (monthOfDay d)"
      by (simp add: monthStart_le_iff)
    then show False using monthOfDay_correct(1)[of d] assms(2) by linarith
  qed
qed

subsection \<open>Dates and months\<close>

lemma dayNumber_mult: "0 \<le> r \<Longrightarrow> r < msPerDay \<Longrightarrow> dayNumber (d * msPerDay + r) = d"
  unfolding dayNumber_def by (rule int_div_pos_eq[of _ _ _ r]) (simp_all add: mult.commute)

lemma dayNumber_start: "dayNumber (d * msPerDay) = d"
  using dayNumber_mult[of 0 d] by (simp add: msPerDay_def)

lemma dayNumber_le: "dayNumber t * msPerDay \<le> t"
  unfolding dayNumber_def msPerDay_def
  using div_mult_mod_eq[of t 86400000] pos_mod_sign[of 86400000 t] by linarith

lemma monthIndex_bounds:
  "monthStart (monthIndex t) \<le> dayNumber t" "dayNumber t < monthStart (monthIndex t + 1)"
  unfolding monthIndex_def by (rule monthOfDay_correct)+

lemma monthIndex_eqI:
  "monthStart k \<le> dayNumber t \<Longrightarrow> dayNumber t < monthStart (k + 1) \<Longrightarrow> monthIndex t = k"
  unfolding monthIndex_def by (rule monthOfDay_unique)

lemma monthIndex_monthStart: "monthIndex (monthStart k * msPerDay) = k"
  by (rule monthIndex_eqI) (simp_all add: dayNumber_start monthStart_less_iff)

lemma floorMonth_le: "floorMonth t \<le> t"
proof -
  have "monthStart (monthIndex t) * msPerDay \<le> dayNumber t * msPerDay"
    using monthIndex_bounds(1)[of t] by (simp add: msPerDay_def)
  then show ?thesis using dayNumber_le[of t] by (simp add: floorMonth_def)
qed

lemma monthIndex_floorMonth: "monthIndex (floorMonth t) = monthIndex t"
  by (simp add: floorMonth_def monthIndex_monthStart)

lemma DateFromTime_bounds: "1 \<le> DateFromTime t" "DateFromTime t \<le> 31"
proof -
  show "1 \<le> DateFromTime t" using monthIndex_bounds(1)[of t] by (simp add: DateFromTime_def)
  show "DateFromTime t \<le> 31"
    using monthIndex_bounds(2)[of t] monthStart_step(2)[of "monthIndex t"]
    by (simp add: DateFromTime_def)
qed

lemma monthIndex_monthBack: "monthIndex (monthBack t) = monthIndex t - 1"
proof -
  let ?k = "monthIndex t - 1"
  let ?dim = "monthStart (?k + 1) - monthStart ?k"
  let ?day = "monthStart ?k + (if ?dim \<le> DateFromTime t then ?dim else DateFromTime t) - 1"
  have r: "0 \<le> t mod msPerDay" "t mod msPerDay < msPerDay" by (simp_all add: msPerDay_def)
  have s: "monthBack t = ?day * msPerDay + t mod msPerDay"
    by (simp add: monthBack_def Let_def)
  have dn: "dayNumber (monthBack t) = ?day"
    unfolding s using r by (rule dayNumber_mult)
  have dim: "28 \<le> ?dim" using monthStart_step(1)[of ?k] by simp
  have lo: "monthStart ?k \<le> ?day" using dim DateFromTime_bounds(1)[of t] by simp
  have hi: "?day < monthStart (?k + 1)" by simp
  show ?thesis using lo hi unfolding dn[symmetric] by (rule monthIndex_eqI)
qed

lemma MonthFromTime_bounds: "0 \<le> MonthFromTime t" "MonthFromTime t < 12"
  by (simp_all add: MonthFromTime_def)

lemma mod_diff_neq:
  fixes x d n :: int
  assumes "0 < d" "d < n"
  shows "(x - d) mod n \<noteq> x mod n"
proof
  assume "(x - d) mod n = x mod n"
  then have "n dvd (x - (x - d))" by (metis mod_eq_dvd_iff)
  then have "n dvd d" by simp
  then have "n \<le> d" using assms(1) by (rule zdvd_imp_le)
  with assms(2) show False by simp
qed

subsection \<open>Formatting\<close>

lemma digit_val_zero: "digit_val CHR ''0'' = 0"
  by (simp add: digit_val_def pos_def)

lemma undec_append: "undec (xs @ ys) = foldl (\<lambda>a c. 10 * a + digit_val c) (undec xs) ys"
  by (simp add: undec_def)

lemma undec_zeros: "undec (replicate z CHR ''0'') = 0"
  by (induction z) (simp_all add: undec_def digit_val_zero)

lemma undec_addLeadingZeros: "undec (addLeadingZeros n w) = n"
proof -
  have "undec (addLeadingZeros n w) = foldl (\<lambda>a c. 10 * a + digit_val c) 0 (dec n)"
    unfolding addLeadingZeros_def undec_append undec_zeros ..
  then show ?thesis using undec_dec[of n] by (simp add: undec_def)
qed

lemma addLeadingZeros_inj: "addLeadingZeros n w = addLeadingZeros m w' \<Longrightarrow> n = m"
  by (metis undec_addLeadingZeros)

lemma set_addLeadingZeros: "set (addLeadingZeros n w) \<subseteq> set ''0123456789''"
  using set_dec[of n] by (auto simp: addLeadingZeros_def)

lemma sep_notin_addLeadingZeros:
  "CHR ''-'' \<notin> set (addLeadingZeros n w)" "CHR ''T'' \<notin> set (addLeadingZeros n w)"
  using set_addLeadingZeros[of n w] by auto

lemma format_ISO_inj:
  assumes "format z t ISO = format z t' ISO"
  shows "MonthFromTime (localTime z t) = MonthFromTime (localTime z t')
    \<and> DateFromTime (localTime z t) = DateFromTime (localTime z t')"
proof -
  let ?l = "localTime z t" and ?l' = "localTime z t'"
  let ?Y = "formatYear ?l" and ?Y' = "formatYear ?l'"
  let ?M = "addLeadingZeros (nat (MonthFromTime ?l + 1)) 2"
  let ?M' = "addLeadingZeros (nat (MonthFromTime ?l' + 1)) 2"
  let ?D = "addLeadingZeros (nat (DateFromTime ?l)) 2"
  let ?D' = "addLeadingZeros (nat (DateFromTime ?l')) 2"
  obtain r r' where
    e: "?Y @ CHR ''-'' # (?M @ CHR ''-'' # (?D @ CHR ''T'' # r))
      = ?Y' @ CHR ''-'' # (?M' @ CHR ''-'' # (?D' @ CHR ''T'' # r'))"
    using assms by simp
  have y: "CHR ''-'' \<notin> set ?Y" "CHR ''-'' \<notin> set ?Y'"
    by (simp_all add: formatYear_def Let_def sep_notin_addLeadingZeros)
  from split_at_sep[OF y e]
  have e2: "?M @ CHR ''-'' # (?D @ CHR ''T'' # r) = ?M' @ CHR ''-'' # (?D' @ CHR ''T'' # r')"
    by simp
  from split_at_sep[OF sep_notin_addLeadingZeros(1) sep_notin_addLeadingZeros(1) e2]
  have m: "?M = ?M'" and e3: "?D @ CHR ''T'' # r = ?D' @ CHR ''T'' # r'"
    by simp_all
  from split_at_sep[OF sep_notin_addLeadingZeros(2) sep_notin_addLeadingZeros(2) e3]
  have d: "?D = ?D'" by simp
  have "nat (MonthFromTime ?l + 1) = nat (MonthFromTime ?l' + 1)"
    using m by (rule addLeadingZeros_inj)
  then have "MonthFromTime ?l + 1 = MonthFromTime ?l' + 1"
    using MonthFromTime_bounds(1)[of ?l] MonthFromTime_bounds(1)[of ?l']
    by (simp add: eq_nat_nat_iff)
  moreover have "nat (DateFromTime ?l) = nat (DateFromTime ?l')"
    using d by (rule addLeadingZeros_inj)
  then have "DateFromTime ?l = DateFromTime ?l'"
    using DateFromTime_bounds(1)[of ?l] DateFromTime_bounds(1)[of ?l']
    by (simp add: eq_nat_nat_iff)
  ultimately show ?thesis by simp
qed

lemma format_HH_inj:
  assumes "format z t HH_00 = format z t' HH_00"
  shows "HourFromTime (localTime z t) = HourFromTime (localTime z t')"
proof -
  let ?l = "localTime z t" and ?l' = "localTime z t'"
  from assms have "addLeadingZeros (nat (HourFromTime ?l)) 2 = addLeadingZeros (nat (HourFromTime ?l')) 2"
    by simp
  then have "nat (HourFromTime ?l) = nat (HourFromTime ?l')" by (rule addLeadingZeros_inj)
  moreover have "0 \<le> HourFromTime ?l" "0 \<le> HourFromTime ?l'" by (simp_all add: HourFromTime_def)
  ultimately show ?thesis by (simp add: eq_nat_nat_iff)
qed

lemma distinct_monthNames: "distinct monthNames" "length monthNames = 12"
  by (simp_all add: monthNames_def)

lemma format_MMM_inj:
  assumes "format z t MMM = format z t' MMM"
  shows "MonthFromTime (localTime z t) = MonthFromTime (localTime z t')"
proof -
  let ?l = "localTime z t" and ?l' = "localTime z t'"
  have "nat (MonthFromTime ?l) < length monthNames" "nat (MonthFromTime ?l') < length monthNames"
    using MonthFromTime_bounds[of ?l] MonthFromTime_bounds[of ?l']
    by (simp_all add: distinct_monthNames)
  then have "nat (MonthFromTime ?l) = nat (MonthFromTime ?l')"
    using assms distinct_monthNames(1) by (simp add: nth_eq_iff_index_eq)
  then show ?thesis
    using MonthFromTime_bounds(1)[of ?l] MonthFromTime_bounds(1)[of ?l']
    by (simp add: eq_nat_nat_iff)
qed

subsection \<open>A zone of one offset\<close>

lemma mod_sub_mult:
  fixes t n u :: int
  shows "(t - n * u) mod u = t mod u"
proof -
  have "(t + (- n) * u) mod u = t mod u" by (rule mod_mult_self1)
  then show ?thesis by simp
qed

lemma div_sub_mult:
  fixes t n u :: int
  assumes "u \<noteq> 0"
  shows "(t - n * u) div u = t div u - n"
proof -
  have "(t + (- n) * u) div u = (- n) + t div u" using assms by (rule div_mult_self1)
  then show ?thesis by simp
qed

lemma fixed_localTime: "changes z = [] \<Longrightarrow> localTime z t = t + offsetMs z"
  by (simp add: localTime_def offsetAt_def offsetMs_def)

lemma fixed_utc: "changes z = [] \<Longrightarrow> utc z l = l - offsetMs z"
  by (simp add: utc_def offsetMs_def)

lemma day_split: "dayNumber l * msPerDay + l mod msPerDay = l"
  unfolding dayNumber_def by simp

lemma floorDay_eq: "floorDay l = dayNumber l * msPerDay"
  unfolding floorDay_def using day_split[of l] by linarith

lemma floorDay_mult: "0 \<le> r \<Longrightarrow> r < msPerDay \<Longrightarrow> floorDay (d * msPerDay + r) = d * msPerDay"
  by (simp add: floorDay_eq dayNumber_mult)

lemma fixed_startOfHour:
  "changes z = [] \<Longrightarrow> startOfHour z t = floorHour (t + offsetMs z) - offsetMs z"
  by (simp add: startOfHour_def setMinutes_0_def Let_def fixed_localTime fixed_utc floorHour_def)

lemma fixed_setHours_0:
  "changes z = [] \<Longrightarrow> setHours_0 z t = floorDay (t + offsetMs z) - offsetMs z"
  by (simp add: setHours_0_def Let_def fixed_localTime fixed_utc floorDay_def)

lemma fixed_startOfDay:
  "changes z = [] \<Longrightarrow> startOfDay z t = floorDay (t + offsetMs z) - offsetMs z"
  by (simp add: startOfDay_def fixed_setHours_0)

lemma fixed_setDate:
  assumes "changes z = []"
  shows "setDate z t d =
     (monthStart (monthIndex (t + offsetMs z)) + d - 1) * msPerDay
       + (t + offsetMs z) mod msPerDay - offsetMs z"
  using assms by (simp add: setDate_def Let_def fixed_localTime fixed_utc)

lemma move_days:
  "(monthStart (monthIndex l) + (DateFromTime l + n) - 1) * msPerDay + l mod msPerDay
     = l + n * msPerDay"
proof -
  have "monthStart (monthIndex l) + (DateFromTime l + n) - 1 = dayNumber l + n"
    by (simp add: DateFromTime_def)
  then have "(monthStart (monthIndex l) + (DateFromTime l + n) - 1) * msPerDay + l mod msPerDay
      = (dayNumber l * msPerDay + l mod msPerDay) + n * msPerDay"
    by (simp add: algebra_simps)
  then show ?thesis by (simp only: day_split)
qed

lemma fixed_addDays:
  assumes "changes z = []"
  shows "addDays z t n = t + n * msPerDay"
proof (cases "n = 0")
  case True
  then show ?thesis by (simp add: addDays_def)
next
  case False
  let ?l = "t + offsetMs z"
  have e: "addDays z t n
      = (monthStart (monthIndex ?l) + (DateFromTime ?l + n) - 1) * msPerDay + ?l mod msPerDay
          - offsetMs z"
    using False assms
    by (simp add: addDays_def fixed_setDate[OF assms] getDate_def fixed_localTime)
  show ?thesis unfolding e move_days by simp
qed

lemma fixed_subDays: "changes z = [] \<Longrightarrow> subDays z t 1 = t - msPerDay"
  by (simp add: subDays_def fixed_addDays)

lemma fixed_subWeeks: "changes z = [] \<Longrightarrow> subWeeks z t 1 = t - 7 * msPerDay"
  by (simp add: subWeeks_def addWeeks_def fixed_addDays)

lemma floorDay_sub: "floorDay (t - n * msPerDay) = floorDay t - n * msPerDay"
  by (simp add: floorDay_def mod_sub_mult)

lemma fixed_startOfWeek:
  assumes "changes z = []"
  shows "startOfWeek z t 1 = floorWeek (t + offsetMs z) - offsetMs z"
proof -
  let ?l = "t + offsetMs z"
  let ?diff = "(if WeekDay ?l < 1 then 7 else 0) + WeekDay ?l - 1"
  have "setDate z t (DateFromTime ?l - ?diff)
      = (monthStart (monthIndex ?l) + (DateFromTime ?l + (- ?diff)) - 1) * msPerDay
          + ?l mod msPerDay - offsetMs z"
    by (simp add: fixed_setDate[OF assms])
  also have "\<dots> = ?l + (- ?diff) * msPerDay - offsetMs z"
    by (simp only: move_days)
  also have "\<dots> = ?l - ?diff * msPerDay - offsetMs z"
    by (simp only: mult_minus_left)
  finally have s: "setDate z t (DateFromTime ?l - ?diff) = ?l - ?diff * msPerDay - offsetMs z" .
  have "startOfWeek z t 1 = setHours_0 z (setDate z t (DateFromTime ?l - ?diff))"
    using assms by (simp add: startOfWeek_def Let_def getDay_def getDate_def fixed_localTime)
  also have "\<dots> = floorDay (?l - ?diff * msPerDay) - offsetMs z"
    by (simp only: s fixed_setHours_0[OF assms] diff_add_cancel)
  finally show ?thesis by (simp add: floorDay_sub floorWeek_def)
qed

lemma fixed_startOfMonth:
  assumes "changes z = []"
  shows "startOfMonth z t = floorMonth (t + offsetMs z) - offsetMs z"
proof -
  let ?l = "t + offsetMs z"
  have r: "0 \<le> ?l mod msPerDay" "?l mod msPerDay < msPerDay" by (simp_all add: msPerDay_def)
  have "startOfMonth z t
      = floorDay (monthStart (monthIndex ?l) * msPerDay + ?l mod msPerDay) - offsetMs z"
    by (simp add: startOfMonth_def fixed_setDate[OF assms] fixed_setHours_0[OF assms])
  then show ?thesis by (simp add: floorDay_mult[OF r] floorMonth_def)
qed

lemma fixed_subMonths:
  assumes "changes z = []"
  shows "subMonths z t 1 = monthBack (t + offsetMs z) - offsetMs z"
proof -
  let ?l = "t + offsetMs z"
  let ?k = "monthIndex ?l"
  let ?r = "?l mod msPerDay"
  let ?e = "(monthStart ?k - 1) * msPerDay + ?r"
  have r: "0 \<le> ?r" "?r < msPerDay" by (simp_all add: msPerDay_def)
  have dn: "dayNumber ?e = monthStart ?k - 1" using r by (rule dayNumber_mult)
  have "monthStart (?k - 1) \<le> monthStart ?k - 1"
    using monthStart_less[of "?k - 1" ?k] by simp
  then have lo: "monthStart (?k - 1) \<le> dayNumber ?e" by (simp only: dn)
  have hi: "dayNumber ?e < monthStart (?k - 1 + 1)" by (simp add: dn)
  have mi: "monthIndex ?e = ?k - 1" using lo hi by (rule monthIndex_eqI)
  have dim: "DateFromTime ?e = monthStart ?k - monthStart (?k - 1)"
    by (simp add: DateFromTime_def dn mi)
  have "subMonths z t 1
      = (if DateFromTime ?e \<le> DateFromTime ?l then ?e - offsetMs z
         else (monthStart (monthIndex ?e) + DateFromTime ?l - 1) * msPerDay + ?r - offsetMs z)"
    using assms
    by (simp add: subMonths_def addMonths_def Let_def fixed_localTime fixed_utc getDate_def)
  also have "\<dots> = monthBack ?l - offsetMs z"
    unfolding dim mi by (simp add: monthBack_def Let_def algebra_simps)
  finally show ?thesis .
qed

subsection \<open>The five period starts\<close>

lemma getPreviousPeriods_5:
  "getPreviousPeriods z now period 5 =
     [getStartOfPeriod z
        (previous z (previous z (previous z (previous z now period) period) period) period) period,
      getStartOfPeriod z (previous z (previous z (previous z now period) period) period) period,
      getStartOfPeriod z (previous z (previous z now period) period) period,
      getStartOfPeriod z (previous z now period) period,
      getStartOfPeriod z now period]"
  by (simp add: getPreviousPeriods_def eval_nat_numeral)

lemma periods_length: "length (getPreviousPeriods z now period 5) = 5"
  by (simp add: getPreviousPeriods_5)

lemma floorHour_sub: "floorHour (t - n * msPerHour) = floorHour t - n * msPerHour"
  by (simp add: floorHour_def mod_sub_mult)

lemma dayNumber_sub: "dayNumber (t - n * msPerDay) = dayNumber t - n"
  unfolding dayNumber_def by (rule div_sub_mult) (simp add: msPerDay_def)

lemma floorWeek_eq:
  "floorWeek t = (dayNumber t - ((if WeekDay t < 1 then 7 else 0) + WeekDay t - 1)) * msPerDay"
  by (simp add: floorWeek_def floorDay_eq algebra_simps)

lemma WeekDay_sub7:
  assumes "7 dvd m"
  shows "WeekDay (t - m * msPerDay) = WeekDay t"
proof -
  from assms obtain n where m: "m = n * 7" by (auto simp: dvd_def)
  have "WeekDay (t - m * msPerDay) = (dayNumber t - m + 4) mod 7"
    by (simp add: WeekDay_def dayNumber_sub)
  also have "dayNumber t - m + 4 = dayNumber t + 4 - n * 7" using m by simp
  also have "(dayNumber t + 4 - n * 7) mod 7 = (dayNumber t + 4) mod 7"
    by (rule mod_sub_mult)
  finally show ?thesis by (simp add: WeekDay_def)
qed

lemma floorWeek_sub:
  assumes "7 dvd m"
  shows "floorWeek (t - m * msPerDay) = floorWeek t - m * msPerDay"
  unfolding floorWeek_eq WeekDay_sub7[OF assms] dayNumber_sub by (simp add: algebra_simps)

lemma floorWeek_sub7: "floorWeek (t - n * (7 * msPerDay)) = floorWeek t - n * (7 * msPerDay)"
proof -
  have "7 dvd n * 7" by simp
  from floorWeek_sub[OF this, of t] show ?thesis by (simp add: algebra_simps)
qed

text \<open>
  With a step back by a constant and a start that commutes with it, the five starts are the
  start of the current period and the four before it, one step apart.
\<close>

lemma periods_shape:
  fixes f :: "int \<Rightarrow> int"
  assumes p: "\<And>t. previous z t period = t - step"
    and g: "\<And>t. getStartOfPeriod z t period = f (t + c) - c"
    and f: "\<And>l n. f (l - n * step) = f l - n * step"
  shows "getPreviousPeriods z now period 5 = map (\<lambda>i. f (now + c) - i * step - c) [4, 3, 2, 1, 0]"
proof -
  have 1: "f (now - step + c) = f (now + c) - 1 * step"
    using f[of "now + c" 1] by (simp add: algebra_simps)
  have 2: "f (now - step - step + c) = f (now + c) - 2 * step"
    using f[of "now + c" 2] by (simp add: algebra_simps)
  have 3: "f (now - step - step - step + c) = f (now + c) - 3 * step"
    using f[of "now + c" 3] by (simp add: algebra_simps)
  have 4: "f (now - step - step - step - step + c) = f (now + c) - 4 * step"
    using f[of "now + c" 4] by (simp add: algebra_simps)
  show ?thesis unfolding getPreviousPeriods_5 p g 1 2 3 4 by simp
qed

lemma periods_hourly:
  assumes "changes z = []"
  shows "getPreviousPeriods z now ''hourly'' 5 =
     map (\<lambda>i. floorHour (now + offsetMs z) - i * msPerHour - offsetMs z) [4, 3, 2, 1, 0]"
proof (rule periods_shape)
  show "previous z t ''hourly'' = t - msPerHour" for t
    by (simp add: previous_def subHours_def)
  show "getStartOfPeriod z t ''hourly'' = floorHour (t + offsetMs z) - offsetMs z" for t
    by (simp add: getStartOfPeriod_def fixed_startOfHour[OF assms])
  show "floorHour (l - n * msPerHour) = floorHour l - n * msPerHour" for l n
    by (rule floorHour_sub)
qed

lemma periods_daily:
  assumes "changes z = []"
  shows "getPreviousPeriods z now ''daily'' 5 =
     map (\<lambda>i. floorDay (now + offsetMs z) - i * msPerDay - offsetMs z) [4, 3, 2, 1, 0]"
proof (rule periods_shape)
  show "previous z t ''daily'' = t - msPerDay" for t
    by (simp add: previous_def fixed_subDays[OF assms])
  show "getStartOfPeriod z t ''daily'' = floorDay (t + offsetMs z) - offsetMs z" for t
    by (simp add: getStartOfPeriod_def fixed_startOfDay[OF assms])
  show "floorDay (l - n * msPerDay) = floorDay l - n * msPerDay" for l n
    by (rule floorDay_sub)
qed

lemma periods_weekly:
  assumes "changes z = []"
  shows "getPreviousPeriods z now ''weekly'' 5 =
     map (\<lambda>i. floorWeek (now + offsetMs z) - i * (7 * msPerDay) - offsetMs z) [4, 3, 2, 1, 0]"
proof (rule periods_shape)
  show "previous z t ''weekly'' = t - 7 * msPerDay" for t
    by (simp add: previous_def fixed_subWeeks[OF assms])
  show "getStartOfPeriod z t ''weekly'' = floorWeek (t + offsetMs z) - offsetMs z" for t
    by (simp add: getStartOfPeriod_def fixed_startOfWeek[OF assms])
  show "floorWeek (l - n * (7 * msPerDay)) = floorWeek l - n * (7 * msPerDay)" for l n
    by (rule floorWeek_sub7)
qed

lemma periods_monthly:
  assumes "changes z = []"
    and "period \<noteq> ''hourly''" "period \<noteq> ''daily''" "period \<noteq> ''weekly''"
  shows "getPreviousPeriods z now period 5 =
     map (\<lambda>i. monthStart (monthIndex (now + offsetMs z) - i) * msPerDay - offsetMs z)
       [4, 3, 2, 1, 0]"
proof -
  have g: "getStartOfPeriod z t period = monthStart (monthIndex (t + offsetMs z)) * msPerDay - offsetMs z"
    for t
    using assms(2-4) by (simp add: getStartOfPeriod_def fixed_startOfMonth[OF assms(1)] floorMonth_def)
  have p: "previous z t period = monthBack (t + offsetMs z) - offsetMs z" for t
    using assms(2-4) by (simp add: previous_def fixed_subMonths[OF assms(1)])
  show ?thesis
    by (simp add: getPreviousPeriods_5 g p monthIndex_monthBack)
qed

subsection \<open>The five labels differ\<close>

lemma distinct5:
  fixes f :: "int \<Rightarrow> 'a"
  assumes "\<And>i j. 0 \<le> i \<Longrightarrow> i < j \<Longrightarrow> j \<le> 4 \<Longrightarrow> f i \<noteq> f j"
  shows "distinct (map f [4, 3, 2, 1, 0])"
  using assms[of 0 1] assms[of 0 2] assms[of 0 3] assms[of 0 4] assms[of 1 2] assms[of 1 3]
    assms[of 1 4] assms[of 2 3] assms[of 2 4] assms[of 3 4]
  by (simp add: eq_commute)

lemma sorted5:
  fixes f :: "int \<Rightarrow> int"
  assumes "\<And>i. f (i + 1) < f i"
  shows "sorted_wrt (<) (map f [4, 3, 2, 1, 0])"
  using assms[of 0] assms[of 1] assms[of 2] assms[of 3] by simp

lemma fixed_local: "changes z = [] \<Longrightarrow> localTime z (l - offsetMs z) = l"
  by (simp add: fixed_localTime)

lemma HourFromTime_sub: "HourFromTime (t - n * msPerHour) = (t div msPerHour - n) mod 24"
  unfolding HourFromTime_def by (simp add: div_sub_mult msPerHour_def)

lemma hourly_label_neq:
  assumes "changes z = []" "0 \<le> i" "i < j" "j \<le> 4"
  shows "format z (l - i * msPerHour - offsetMs z) HH_00
    \<noteq> format z (l - j * msPerHour - offsetMs z) HH_00"
proof
  assume "format z (l - i * msPerHour - offsetMs z) HH_00
    = format z (l - j * msPerHour - offsetMs z) HH_00"
  then have "HourFromTime (localTime z (l - i * msPerHour - offsetMs z))
      = HourFromTime (localTime z (l - j * msPerHour - offsetMs z))"
    by (rule format_HH_inj)
  then have "HourFromTime (l - i * msPerHour) = HourFromTime (l - j * msPerHour)"
    by (simp only: fixed_local[OF assms(1)])
  then have "(l div msPerHour - i) mod 24 = (l div msPerHour - i - (j - i)) mod 24"
    by (simp add: HourFromTime_sub)
  moreover have "(l div msPerHour - i - (j - i)) mod 24 \<noteq> (l div msPerHour - i) mod 24"
    by (rule mod_diff_neq) (use assms in simp_all)
  ultimately show False by simp
qed

lemma MonthFromTime_monthStart: "MonthFromTime (monthStart k * msPerDay) = k mod 12"
  by (simp add: MonthFromTime_def monthIndex_monthStart)

lemma month_neq:
  assumes "0 \<le> i" "i < j" "j \<le> 4"
  shows "MonthFromTime (monthStart (k - i) * msPerDay) \<noteq> MonthFromTime (monthStart (k - j) * msPerDay)"
proof -
  have "(k - i - (j - i)) mod 12 \<noteq> (k - i) mod 12"
    by (rule mod_diff_neq) (use assms in simp_all)
  then show ?thesis by (simp add: MonthFromTime_monthStart)
qed

lemma monthly_label_neq:
  assumes "changes z = []" "0 \<le> i" "i < j" "j \<le> 4"
  shows "format z (monthStart (k - i) * msPerDay - offsetMs z) MMM
    \<noteq> format z (monthStart (k - j) * msPerDay - offsetMs z) MMM"
proof
  assume "format z (monthStart (k - i) * msPerDay - offsetMs z) MMM
    = format z (monthStart (k - j) * msPerDay - offsetMs z) MMM"
  then have "MonthFromTime (localTime z (monthStart (k - i) * msPerDay - offsetMs z))
      = MonthFromTime (localTime z (monthStart (k - j) * msPerDay - offsetMs z))"
    by (rule format_MMM_inj)
  then show False using month_neq[OF assms(2-4), of k] by (simp only: fixed_local[OF assms(1)])
qed

lemma other_label_neq:
  assumes "changes z = []" "0 \<le> i" "i < j" "j \<le> 4"
  shows "format z (monthStart (k - i) * msPerDay - offsetMs z) ISO
    \<noteq> format z (monthStart (k - j) * msPerDay - offsetMs z) ISO"
proof
  assume "format z (monthStart (k - i) * msPerDay - offsetMs z) ISO
    = format z (monthStart (k - j) * msPerDay - offsetMs z) ISO"
  from format_ISO_inj[OF this]
  have "MonthFromTime (localTime z (monthStart (k - i) * msPerDay - offsetMs z))
      = MonthFromTime (localTime z (monthStart (k - j) * msPerDay - offsetMs z))"
    by blast
  then show False using month_neq[OF assms(2-4), of k] by (simp only: fixed_local[OF assms(1)])
qed

lemma near_months:
  assumes "dayNumber t' < dayNumber t" "dayNumber t \<le> dayNumber t' + 28"
  shows "monthIndex t = monthIndex t' \<or> monthIndex t = monthIndex t' + 1"
proof -
  let ?k = "monthIndex t" and ?k' = "monthIndex t'"
  have "monthStart ?k' < monthStart (?k + 1)"
    using monthIndex_bounds(1)[of t'] monthIndex_bounds(2)[of t] assms(1) by linarith
  then have lo: "?k' \<le> ?k" by (simp add: monthStart_less_iff)
  have "\<not> ?k' + 2 \<le> ?k"
  proof
    assume "?k' + 2 \<le> ?k"
    then have "monthStart (?k' + 1 + 1) \<le> monthStart ?k" by (simp add: monthStart_le_iff)
    then show False
      using monthStart_step(1)[of "?k' + 1"] monthIndex_bounds(2)[of t'] monthIndex_bounds(1)[of t]
        assms(2) by linarith
  qed
  with lo show ?thesis by linarith
qed

lemma near_label_neq:
  assumes "changes z = []" "dayNumber t' < dayNumber t" "dayNumber t \<le> dayNumber t' + 28"
  shows "format z (t - offsetMs z) ISO \<noteq> format z (t' - offsetMs z) ISO"
proof
  assume "format z (t - offsetMs z) ISO = format z (t' - offsetMs z) ISO"
  from format_ISO_inj[OF this]
  have e: "MonthFromTime t = MonthFromTime t'" "DateFromTime t = DateFromTime t'"
    by (simp_all only: fixed_local[OF assms(1)])
  from near_months[OF assms(2,3)] show False
  proof
    assume "monthIndex t = monthIndex t'"
    then show False using e(2) assms(2) by (simp add: DateFromTime_def)
  next
    assume k: "monthIndex t = monthIndex t' + 1"
    have "(monthIndex t - 1) mod 12 \<noteq> monthIndex t mod 12"
      by (rule mod_diff_neq) simp_all
    then show False using e(1) k by (simp add: MonthFromTime_def)
  qed
qed

lemma days_label_neq:
  assumes "changes z = []" "0 \<le> i" "i < j" "j \<le> 4" "0 < w" "w \<le> 7"
  shows "format z (d * msPerDay - i * (w * msPerDay) - offsetMs z) ISO
    \<noteq> format z (d * msPerDay - j * (w * msPerDay) - offsetMs z) ISO"
proof -
  have a: "d * msPerDay - n * (w * msPerDay) = (d - n * w) * msPerDay" for n
    by (simp add: algebra_simps)
  have "j * w \<le> i * w + 28"
  proof -
    have "(j - i) * w \<le> 4 * 7"
      using assms by (intro mult_mono) simp_all
    then show ?thesis by (simp add: algebra_simps)
  qed
  moreover have "i * w < j * w" using assms by simp
  ultimately show ?thesis
    unfolding a by (intro near_label_neq[OF assms(1)]) (simp_all add: dayNumber_start)
qed

subsection \<open>The period starts: increasing, with different labels\<close>

lemma msPer_pos: "0 < msPerHour" "0 < msPerDay"
  by (simp_all add: msPerHour_def msPerDay_def)

lemma periods_sorted:
  assumes "changes z = []"
  shows "sorted_wrt (<) (getPreviousPeriods z now period 5)"
proof -
  consider (h) "period = ''hourly''" | (d) "period = ''daily''" | (w) "period = ''weekly''"
    | (m) "period \<noteq> ''hourly''" "period \<noteq> ''daily''" "period \<noteq> ''weekly''"
    by blast
  then show ?thesis
  proof cases
    case h
    show ?thesis unfolding h periods_hourly[OF assms]
      by (rule sorted5) (simp add: algebra_simps msPer_pos)
  next
    case d
    show ?thesis unfolding d periods_daily[OF assms]
      by (rule sorted5) (simp add: algebra_simps msPer_pos)
  next
    case w
    show ?thesis unfolding w periods_weekly[OF assms]
      by (rule sorted5) (simp add: algebra_simps msPer_pos)
  next
    case m
    show ?thesis unfolding periods_monthly[OF assms m]
      by (rule sorted5) (simp add: monthStart_less_iff msPer_pos)
  qed
qed

lemma periods_labels:
  assumes "changes z = []"
  shows "distinct (map (\<lambda>t. format z t (patternOf period)) (getPreviousPeriods z now period 5))"
proof -
  consider (h) "period = ''hourly''" | (d) "period = ''daily''" | (w) "period = ''weekly''"
    | (m) "period = ''monthly''"
    | (o) "period \<noteq> ''hourly''" "period \<noteq> ''daily''" "period \<noteq> ''weekly''" "period \<noteq> ''monthly''"
    by blast
  then show ?thesis
  proof cases
    case h
    have p: "patternOf ''hourly'' = HH_00" by (simp add: patternOf_def)
    show ?thesis unfolding h periods_hourly[OF assms] p map_map comp_def
      by (rule distinct5) (rule hourly_label_neq[OF assms])
  next
    case d
    have p: "patternOf ''daily'' = ISO" by (simp add: patternOf_def)
    have s: "floorDay l - i * msPerDay = dayNumber l * msPerDay - i * (1 * msPerDay)" for l i
      by (simp add: floorDay_eq)
    show ?thesis unfolding d periods_daily[OF assms] p map_map comp_def s
      by (rule distinct5) (rule days_label_neq[OF assms], simp_all)
  next
    case w
    have p: "patternOf ''weekly'' = ISO" by (simp add: patternOf_def)
    show ?thesis unfolding w periods_weekly[OF assms] p map_map comp_def floorWeek_eq
      by (rule distinct5) (rule days_label_neq[OF assms], simp_all)
  next
    case m
    have p: "patternOf ''monthly'' = MMM" by (simp add: patternOf_def)
    have q: "''monthly'' \<noteq> ''hourly''" "''monthly'' \<noteq> ''daily''" "''monthly'' \<noteq> ''weekly''"
      by simp_all
    show ?thesis unfolding m periods_monthly[OF assms q] p map_map comp_def
      by (rule distinct5) (rule monthly_label_neq[OF assms])
  next
    case o
    have p: "patternOf period = ISO" using o by (simp add: patternOf_def)
    show ?thesis unfolding periods_monthly[OF assms o(1-3)] p map_map comp_def
      by (rule distinct5) (rule other_label_neq[OF assms])
  qed
qed

subsection \<open>The loop over the periods\<close>

text \<open>
  One round of \<^verbatim>\<open>periods.forEach\<close> assigns to one key of \<^verbatim>\<open>dataMap\<close>: it writes the empty
  bucket under the period's label and counts into that bucket only, so after the round the
  key holds \<open>stepBucket\<close> and every other key is as it was.
\<close>

lemma map_entry_update: "AList.map_entry k f (AList.update k v al) = AList.update k (f v) al"
  by (induction al) auto

lemma countItem_update:
  "countItem s e k (AList.update k b dm) item =
     AList.update k
       (b\<lparr>req := req b + (if s < ts item * 1000 \<and> ts item * 1000 < e then 1 else 0),
          error := error b + (if (s < ts item * 1000 \<and> ts item * 1000 < e)
                                  \<and> 400 \<le> response_status item then 1 else 0)\<rparr>) dm"
  by (simp add: countItem_def Let_def isAfter_def isBefore_def map_entry_update)

lemma foldl_countItem:
  "foldl (countItem s e k) (AList.update k b dm) items =
     AList.update k
       (b\<lparr>req := req b
              + int (length (filter (\<lambda>item. s < ts item * 1000 \<and> ts item * 1000 < e) items)),
          error := error b
              + int (length (filter (\<lambda>item. (s < ts item * 1000 \<and> ts item * 1000 < e)
                                       \<and> 400 \<le> response_status item) items))\<rparr>) dm"
proof (induction items arbitrary: b)
  case Nil
  show ?case by simp
next
  case (Cons item items)
  show ?case
    unfolding foldl_Cons countItem_update Cons.IH by (simp add: add.assoc)
qed

lemma addPeriod_update:
  "addPeriod z now1 periods period node_data dm i =
     AList.update (format z (periods ! i) (patternOf period))
       (stepBucket z now1 periods period node_data i) dm"
  unfolding addPeriod_def Let_def foldl_countItem
  by (simp add: stepBucket_def Let_def)

lemma stepBucket_bucketOf:
  assumes "i < 5"
  shows "stepBucket z now1 (getPreviousPeriods z now0 period 5) period node_data i
    = bucketOf z now0 now1 period node_data i"
  using assms
  by (simp add: stepBucket_def bucketOf_def inBucket_def[abs_def] periodStart_def periodLabel_def
      periodEnd_def periods_length Let_def)

lemma organizeData_updates:
  "organizeData z now0 now1 node_data period =
     map snd (foldl (\<lambda>dm i. AList.update (periodLabel z now0 period i)
                               (bucketOf z now0 now1 period node_data i) dm) [] [0..<5])"
proof -
  let ?ps = "getPreviousPeriods z now0 period 5"
  have "foldl (addPeriod z now1 ?ps period node_data) [] [0..<5]
      = foldl (\<lambda>dm i. AList.update (periodLabel z now0 period i)
                               (bucketOf z now0 now1 period node_data i) dm) [] [0..<5]"
  proof (rule foldl_cong[OF refl refl])
    fix dm i
    assume "i \<in> set [0..<5]"
    then have i: "i < 5" by simp
    show "addPeriod z now1 ?ps period node_data dm i
        = AList.update (periodLabel z now0 period i) (bucketOf z now0 now1 period node_data i) dm"
      unfolding addPeriod_update stepBucket_bucketOf[OF i]
      by (simp add: periodLabel_def periodStart_def)
  qed
  then show ?thesis by (simp add: organizeData_def Let_def periods_length)
qed

text \<open>
  A sequence of assignments to an object that was empty: the keys are the assigned keys in
  the order of their first assignment, every value is one of the assigned ones, and the value
  of an assignment that no later one overwrites is there.
\<close>

lemma set_update_subset: "set (AList.update k v al) \<subseteq> insert (k, v) (set al)"
  by (induction al) auto

lemma updates_keys:
  "map fst (foldl (\<lambda>dm i. AList.update (nm i) (v i) dm) [] js) = firsts (map nm js)"
proof (induction js rule: rev_induct)
  case Nil
  show ?case by simp
next
  case (snoc j js)
  show ?case
    by (simp add: update_keys snoc firsts_snoc)
qed

lemma updates_values:
  assumes "(k, b) \<in> set (foldl (\<lambda>dm i. AList.update (nm i) (v i) dm) [] js)"
  shows "\<exists>i \<in> set js. k = nm i \<and> b = v i"
  using assms
proof (induction js rule: rev_induct)
  case Nil
  then show ?case by simp
next
  case (snoc j js)
  let ?dm = "foldl (\<lambda>dm i. AList.update (nm i) (v i) dm) [] js"
  from snoc.prems have "(k, b) \<in> set (AList.update (nm j) (v j) ?dm)" by simp
  then have "(k, b) = (nm j, v j) \<or> (k, b) \<in> set ?dm"
    using set_update_subset[of "nm j" "v j" ?dm] by auto
  then show ?case using snoc.IH by auto
qed

lemma updates_later:
  assumes "k \<notin> nm ` set js"
  shows "map_of (foldl (\<lambda>dm i. AList.update (nm i) (v i) dm) dm js) k = map_of dm k"
  using assms
proof (induction js arbitrary: dm)
  case Nil
  show ?case by simp
next
  case (Cons j js)
  then show ?case by (simp add: update_conv')
qed

lemma updates_kept:
  assumes "nm i \<notin> nm ` set ks"
  shows "(nm i, v i) \<in> set (foldl (\<lambda>dm i. AList.update (nm i) (v i) dm) [] (js @ i # ks))"
proof -
  let ?f = "\<lambda>dm i. AList.update (nm i) (v i) dm"
  have "map_of (foldl ?f [] (js @ i # ks)) (nm i)
      = map_of (AList.update (nm i) (v i) (foldl ?f [] js)) (nm i)"
    using updates_later[OF assms] by simp
  then have "map_of (foldl ?f [] (js @ i # ks)) (nm i) = Some (v i)"
    by (simp add: update_conv')
  then show ?thesis by (rule map_of_SomeD)
qed

lemma updates_fresh:
  assumes "distinct (map nm js)" "nm ` set js \<inter> fst ` set dm = {}"
  shows "foldl (\<lambda>dm i. AList.update (nm i) (v i) dm) dm js = dm @ map (\<lambda>i. (nm i, v i)) js"
  using assms
proof (induction js arbitrary: dm)
  case Nil
  show ?case by simp
next
  case (Cons j js)
  have n: "nm j \<notin> fst ` set dm" using Cons.prems(2) by auto
  have u: "AList.update (nm j) (v j) dm = dm @ [(nm j, v j)]"
    using n by (induction dm) auto
  have d: "distinct (map nm js)" using Cons.prems(1) by simp
  have i: "nm ` set js \<inter> fst ` set (dm @ [(nm j, v j)]) = {}"
    using Cons.prems by auto
  show ?case
    unfolding foldl_Cons u Cons.IH[OF d i] by simp
qed

text \<open>The same of \<^verbatim>\<open>organizeData\<close>, in any zone.\<close>

lemma organizeData_subset:
  "set (organizeData z now0 now1 node_data period)
     \<subseteq> set (map (bucketOf z now0 now1 period node_data) [0..<5])"
proof
  fix b
  assume "b \<in> set (organizeData z now0 now1 node_data period)"
  then obtain k where
    "(k, b) \<in> set (foldl (\<lambda>dm i. AList.update (periodLabel z now0 period i)
                               (bucketOf z now0 now1 period node_data i) dm) [] [0..<5])"
    unfolding organizeData_updates by auto
  from updates_values[OF this]
  show "b \<in> set (map (bucketOf z now0 now1 period node_data) [0..<5])" by auto
qed

lemma organizeData_names:
  "map bucket_name (organizeData z now0 now1 node_data period)
     = firsts (map (periodLabel z now0 period) [0..<5])"
proof -
  let ?dm = "foldl (\<lambda>dm i. AList.update (periodLabel z now0 period i)
                               (bucketOf z now0 now1 period node_data i) dm) [] [0..<5]"
  have "bucket_name (snd e) = fst e" if "e \<in> set ?dm" for e
  proof -
    from that have "(fst e, snd e) \<in> set ?dm" by simp
    from updates_values[OF this] show ?thesis by (auto simp: bucketOf_def)
  qed
  then have "map bucket_name (map snd ?dm) = map fst ?dm" by simp
  then show ?thesis unfolding organizeData_updates updates_keys .
qed

lemma organizeData_kept:
  assumes "i < 5" "kept z now0 period i"
  shows "bucketOf z now0 now1 period node_data i \<in> set (organizeData z now0 now1 node_data period)"
proof -
  have s: "[0..<5] = [0..<i] @ i # [i + 1..<5]"
    using assms(1) by (metis Suc_eq_plus1 le0 less_imp_le_nat upt_add_eq_append upt_conv_Cons
        add_0 le_add_diff_inverse)
  have "periodLabel z now0 period i \<notin> periodLabel z now0 period ` set [i + 1..<5]"
    using assms(2) unfolding kept_def list_all_iff by auto
  from updates_kept[OF this, of "bucketOf z now0 now1 period node_data" "[0..<i]"]
  show ?thesis unfolding organizeData_updates s by (simp add: rev_image_eqI)
qed


text \<open>
  When the five labels differ nothing is overwritten, and the five buckets are returned in
  the order of the periods. In a zone of one offset the five labels differ.
\<close>

lemma labels_of_periods:
  "map (periodLabel z now0 period) [0..<5]
     = map (\<lambda>t. format z t (patternOf period)) (getPreviousPeriods z now0 period 5)"
proof -
  let ?ps = "getPreviousPeriods z now0 period 5"
  have "map (periodLabel z now0 period) [0..<5]
      = map (\<lambda>t. format z t (patternOf period)) (map ((!) ?ps) [0..<length ?ps])"
    by (simp add: periods_length periodLabel_def[abs_def] periodStart_def)
  then show ?thesis by (simp only: map_nth)
qed

lemma organizeData_distinct:
  assumes "distinct (map (\<lambda>t. format z t (patternOf period)) (getPreviousPeriods z now0 period 5))"
  shows "organizeData z now0 now1 node_data period
    = map (bucketOf z now0 now1 period node_data) [0..<5]"
proof -
  have d: "distinct (map (periodLabel z now0 period) [0..<5])"
    unfolding labels_of_periods by (rule assms)
  have "foldl (\<lambda>dm i. AList.update (periodLabel z now0 period i)
                               (bucketOf z now0 now1 period node_data i) dm) [] [0..<5]
      = [] @ map (\<lambda>i. (periodLabel z now0 period i, bucketOf z now0 now1 period node_data i))
              [0..<5]"
    using d by (intro updates_fresh) simp_all
  then show ?thesis unfolding organizeData_updates by (simp add: comp_def)
qed

lemma organizeData_eq:
  assumes "changes z = []"
  shows "organizeData z now0 now1 node_data period
    = map (bucketOf z now0 now1 period node_data) [0..<5]"
  using periods_labels[OF assms] by (rule organizeData_distinct)

subsection \<open>Every entry is in at most one bucket\<close>








lemma periods_ascending:
  assumes "changes z = []"
  shows "sorted (getPreviousPeriods z now period 5)"
  using periods_sorted[OF assms, of now period] by (rule strict_sorted_imp_sorted)

subsection \<open>The claims on organizeData\<close>




text \<open>
  C3. In any zone, every bucket returned is the bucket \<open>bucketOf\<close> of one of the five
  periods, and the bucket of every period that is not overwritten is returned: it counts in
  \<^verbatim>\<open>req\<close> exactly the entries whose time is strictly after the period's start and strictly
  before its end (the test \<^verbatim>\<open>isAfter(date, startOfPeriod) && isBefore(date, endOfPeriod)\<close>),
  and in \<^verbatim>\<open>error\<close> those of them with status at least 400. An entry whose time is the
  boundary between two periods is in neither. When the five labels differ, as they do in a
  zone of one offset, no period is overwritten and the buckets returned are the five.
\<close>

theorem organizeData_membership:
  "set (organizeData z now0 now1 node_data period)
     \<subseteq> set (map (bucketOf z now0 now1 period node_data) [0..<5])
   \<and> (i < 5 \<and> kept z now0 period i \<longrightarrow>
        bucketOf z now0 now1 period node_data i
          \<in> set (organizeData z now0 now1 node_data period))
   \<and> (distinct (map (\<lambda>t. format z t (patternOf period)) (getPreviousPeriods z now0 period 5))
        \<or> changes z = [] \<longrightarrow>
        organizeData z now0 now1 node_data period
          = map (bucketOf z now0 now1 period node_data) [0..<5])
   \<and> req (bucketOf z now0 now1 period node_data i)
       = int (length (filter
           (\<lambda>item. isAfter (ts item * 1000) (periodStart z now0 period i)
                    \<and> isBefore (ts item * 1000) (periodEnd z now0 now1 period i)) node_data))
   \<and> error (bucketOf z now0 now1 period node_data i)
       = int (length (filter
           (\<lambda>item. (isAfter (ts item * 1000) (periodStart z now0 period i)
                     \<and> isBefore (ts item * 1000) (periodEnd z now0 now1 period i))
                    \<and> 400 \<le> response_status item) node_data))
   \<and> (inBucket z now0 now1 period i item \<longleftrightarrow>
        isAfter (ts item * 1000) (periodStart z now0 period i)
        \<and> isBefore (ts item * 1000) (periodEnd z now0 now1 period i))
   \<and> (i < 4 \<and> ts item * 1000 = periodStart z now0 period (i + 1) \<longrightarrow>
        \<not> inBucket z now0 now1 period i item \<and> \<not> inBucket z now0 now1 period (i + 1) item)"
proof -
  have a: "set (organizeData z now0 now1 node_data period)
     \<subseteq> set (map (bucketOf z now0 now1 period node_data) [0..<5])"
    by (rule organizeData_subset)
  have b: "bucketOf z now0 now1 period node_data i
      \<in> set (organizeData z now0 now1 node_data period)" if "i < 5 \<and> kept z now0 period i"
    using that organizeData_kept by blast
  have c: "organizeData z now0 now1 node_data period
      = map (bucketOf z now0 now1 period node_data) [0..<5]"
    if "distinct (map (\<lambda>t. format z t (patternOf period)) (getPreviousPeriods z now0 period 5))
        \<or> changes z = []"
    using that organizeData_distinct organizeData_eq by blast
  have d: "req (bucketOf z now0 now1 period node_data i)
       = int (length (filter
           (\<lambda>item. isAfter (ts item * 1000) (periodStart z now0 period i)
                    \<and> isBefore (ts item * 1000) (periodEnd z now0 now1 period i)) node_data))"
    by (simp add: bucketOf_def inBucket_def[abs_def] isAfter_def isBefore_def)
  have e: "error (bucketOf z now0 now1 period node_data i)
       = int (length (filter
           (\<lambda>item. (isAfter (ts item * 1000) (periodStart z now0 period i)
                     \<and> isBefore (ts item * 1000) (periodEnd z now0 now1 period i))
                    \<and> 400 \<le> response_status item) node_data))"
    by (simp add: bucketOf_def inBucket_def[abs_def] isAfter_def isBefore_def)
  have f: "inBucket z now0 now1 period i item \<longleftrightarrow>
        isAfter (ts item * 1000) (periodStart z now0 period i)
        \<and> isBefore (ts item * 1000) (periodEnd z now0 now1 period i)"
    by (simp add: inBucket_def isAfter_def isBefore_def)
  have g: "\<not> inBucket z now0 now1 period i item \<and> \<not> inBucket z now0 now1 period (i + 1) item"
    if "i < 4 \<and> ts item * 1000 = periodStart z now0 period (i + 1)"
    using that by (simp add: inBucket_def periodEnd_def)
  from a b c d e f g show ?thesis by blast
qed

text \<open>
  C3 in UTC at 10:30, hourly, with entries stamped 09:00:00, 09:00:01, 10:00:00 and
  10:16:40; the last two have status 500. The two entries on a boundary are counted nowhere.
  And in New York at 02:30 on 2024-11-03, hourly, with entries stamped 05:00:00Z and
  06:30:00Z: the bucket \<^verbatim>\<open>01:00\<close> that is returned is the one of the period from 05:00Z to
  07:00Z, and counts the second entry only.
\<close>

theorem organizeData_membership_witness:
  "organizeData utcZone 37800000 37800000
      [entry0\<lparr>ts := 32400\<rparr>, entry0\<lparr>ts := 32401\<rparr>, entry1\<lparr>ts := 36000\<rparr>, entry1\<lparr>ts := 37000\<rparr>]
      ''hourly''
     = [\<lparr>bucket_name = ''06:00'', req = 0, error = 0\<rparr>,
        \<lparr>bucket_name = ''07:00'', req = 0, error = 0\<rparr>,
        \<lparr>bucket_name = ''08:00'', req = 0, error = 0\<rparr>,
        \<lparr>bucket_name = ''09:00'', req = 1, error = 0\<rparr>,
        \<lparr>bucket_name = ''10:00'', req = 1, error = 1\<rparr>]
   \<and> \<not> inBucket utcZone 37800000 37800000 ''hourly'' 3 (entry1\<lparr>ts := 36000\<rparr>)
   \<and> \<not> inBucket utcZone 37800000 37800000 ''hourly'' 4 (entry1\<lparr>ts := 36000\<rparr>)
   \<and> \<lparr>bucket_name = ''01:00'', req = 1, error = 0\<rparr>
       \<in> set (organizeData newYork 1730619000000 1730619000000
                [entry0\<lparr>ts := 1730610000\<rparr>, entry0\<lparr>ts := 1730615400\<rparr>] ''hourly'')"
proof -
  let ?nd = "[entry0\<lparr>ts := 32400\<rparr>, entry0\<lparr>ts := 32401\<rparr>, entry1\<lparr>ts := 36000\<rparr>,
      entry1\<lparr>ts := 37000\<rparr>]"
  let ?ny = "[entry0\<lparr>ts := 1730610000\<rparr>, entry0\<lparr>ts := 1730615400\<rparr>]"
  have z: "changes utcZone = []" by (simp add: utcZone_def)
  have k: "(3::nat) < 5 \<and> kept newYork 1730619000000 ''hourly'' 3" by code_simp
  have h: "(3::nat) < 4
      \<and> ts (entry1\<lparr>ts := 36000\<rparr>) * 1000 = periodStart utcZone 37800000 ''hourly'' (3 + 1)"
    by code_simp
  have b: "map (bucketOf utcZone 37800000 37800000 ''hourly'' ?nd) [0..<5]
     = [\<lparr>bucket_name = ''06:00'', req = 0, error = 0\<rparr>,
        \<lparr>bucket_name = ''07:00'', req = 0, error = 0\<rparr>,
        \<lparr>bucket_name = ''08:00'', req = 0, error = 0\<rparr>,
        \<lparr>bucket_name = ''09:00'', req = 1, error = 0\<rparr>,
        \<lparr>bucket_name = ''10:00'', req = 1, error = 1\<rparr>]"
    by code_simp
  have c: "bucketOf newYork 1730619000000 1730619000000 ''hourly'' ?ny 3
      = \<lparr>bucket_name = ''01:00'', req = 1, error = 0\<rparr>"
    by code_simp
  note m = organizeData_membership[of utcZone 37800000 37800000 ?nd "''hourly''" 3
      "entry1\<lparr>ts := 36000\<rparr>"]
  note n = organizeData_membership[of newYork 1730619000000 1730619000000 ?ny "''hourly''" 3]
  from m z have 1: "organizeData utcZone 37800000 37800000 ?nd ''hourly''
      = map (bucketOf utcZone 37800000 37800000 ''hourly'' ?nd) [0..<5]"
    by blast
  from m h have 2: "\<not> inBucket utcZone 37800000 37800000 ''hourly'' 3 (entry1\<lparr>ts := 36000\<rparr>)
      \<and> \<not> inBucket utcZone 37800000 37800000 ''hourly'' (3 + 1) (entry1\<lparr>ts := 36000\<rparr>)"
    by blast
  from n k have "bucketOf newYork 1730619000000 1730619000000 ''hourly'' ?ny 3
      \<in> set (organizeData newYork 1730619000000 1730619000000 ?ny ''hourly'')"
    by blast
  then have 3: "\<lparr>bucket_name = ''01:00'', req = 1, error = 0\<rparr>
      \<in> set (organizeData newYork 1730619000000 1730619000000 ?ny ''hourly'')"
    by (simp only: c)
  have "(3::nat) + 1 = 4" by simp
  with 1 2 3 b show ?thesis by (simp only:) blast
qed

text \<open>
  C4. In every bucket returned, in any zone, the error count is non-negative and at most the
  request count. One entry changes a bucket by adding 1 to \<^verbatim>\<open>req\<close> when it passes the time
  test, and 1 to \<^verbatim>\<open>error\<close> when it passes the time test and its status is at least 400.
\<close>

theorem organizeData_error_le_req:
  "list_all (\<lambda>b. 0 \<le> error b \<and> error b \<le> req b) (organizeData z now0 now1 node_data period)
   \<and> countItem startOfPeriod endOfPeriod nm [(nm, b)] item =
       [(nm, b\<lparr>req := req b
                   + (if isAfter (ts item * 1000) startOfPeriod
                         \<and> isBefore (ts item * 1000) endOfPeriod then 1 else 0),
                error := error b
                   + (if (isAfter (ts item * 1000) startOfPeriod
                          \<and> isBefore (ts item * 1000) endOfPeriod)
                         \<and> 400 \<le> response_status item then 1 else 0)\<rparr>)]"
proof -
  have le: "length (filter (\<lambda>item. inBucket z now0 now1 period i item \<and> 400 \<le> response_status item)
            node_data)
      \<le> length (filter (inBucket z now0 now1 period i) node_data)" for i
    by (induction node_data) simp_all
  have "0 \<le> error b' \<and> error b' \<le> req b'"
    if "b' \<in> set (organizeData z now0 now1 node_data period)" for b'
  proof -
    from that organizeData_subset[of z now0 now1 node_data period]
    obtain i where "b' = bucketOf z now0 now1 period node_data i" by auto
    then show ?thesis using le[of i] by (simp add: bucketOf_def)
  qed
  then have "list_all (\<lambda>b. 0 \<le> error b \<and> error b \<le> req b)
      (organizeData z now0 now1 node_data period)"
    by (simp add: list_all_iff)
  moreover have "countItem startOfPeriod endOfPeriod nm [(nm, b)] item =
       [(nm, b\<lparr>req := req b
                   + (if isAfter (ts item * 1000) startOfPeriod
                         \<and> isBefore (ts item * 1000) endOfPeriod then 1 else 0),
                error := error b
                   + (if (isAfter (ts item * 1000) startOfPeriod
                          \<and> isBefore (ts item * 1000) endOfPeriod)
                         \<and> 400 \<le> response_status item then 1 else 0)\<rparr>)]"
    by (simp add: countItem_def Let_def)
  ultimately show ?thesis by blast
qed

text \<open>
  C5 as stated fails in its last part: for the period \<^verbatim>\<open>custom\<close> the buckets are aligned to
  months but named by the full timestamp, not by the month name as for \<^verbatim>\<open>monthly\<close>.
\<close>

theorem organizeData_custom_counterexample:
  "map bucket_name (organizeData utcZone 37800000 37800000 [] ''custom'')
     = [''1969-09-01T00:00:00.000Z'', ''1969-10-01T00:00:00.000Z'', ''1969-11-01T00:00:00.000Z'',
        ''1969-12-01T00:00:00.000Z'', ''1970-01-01T00:00:00.000Z'']
   \<and> map bucket_name (organizeData utcZone 37800000 37800000 [] ''monthly'')
     = [''Sep'', ''Oct'', ''Nov'', ''Dec'', ''Jan'']"
  by code_simp

text \<open>
  C5, amended. For a period other than \<^verbatim>\<open>hourly\<close>, \<^verbatim>\<open>daily\<close>, \<^verbatim>\<open>weekly\<close> and \<^verbatim>\<open>monthly\<close>,
  in any zone, the start of a period is the start of the month, the step back is one month,
  so the period starts are those of \<^verbatim>\<open>monthly\<close>; the bucket names are written with the full
  timestamp pattern, as for \<^verbatim>\<open>daily\<close> and \<^verbatim>\<open>weekly\<close>: they are the timestamps of the five
  month starts, each listed once, and in a zone of one offset the five differ.
\<close>

theorem unknown_period_rules:
  assumes "period \<notin> {''hourly'', ''daily'', ''weekly'', ''monthly''}"
  shows "getStartOfPeriod z d period = startOfMonth z d
   \<and> previous z d period = subMonths z d 1
   \<and> getPreviousPeriods z now0 period 5 = getPreviousPeriods z now0 ''monthly'' 5
   \<and> patternOf period = ISO
   \<and> map bucket_name (organizeData z now0 now1 node_data period)
       = firsts (map (\<lambda>t. format z t ISO) (getPreviousPeriods z now0 ''monthly'' 5))
   \<and> (changes z = [] \<longrightarrow>
        map bucket_name (organizeData z now0 now1 node_data period)
          = map (\<lambda>t. format z t ISO) (getPreviousPeriods z now0 ''monthly'' 5))"
proof -
  have n: "period \<noteq> ''hourly''" "period \<noteq> ''daily''" "period \<noteq> ''weekly''"
    "period \<noteq> ''monthly''"
    using assms by simp_all
  have a: "getStartOfPeriod z d period = startOfMonth z d" for d
    using n by (simp add: getStartOfPeriod_def)
  have b: "previous z d period = subMonths z d 1" for d
    using n by (simp add: previous_def)
  have c: "getPreviousPeriods z now0 period 5 = getPreviousPeriods z now0 ''monthly'' 5"
    unfolding getPreviousPeriods_5 a b by (simp add: getStartOfPeriod_def previous_def)
  have p: "patternOf period = ISO" using n by (simp add: patternOf_def)
  have e: "map bucket_name (organizeData z now0 now1 node_data period)
       = firsts (map (\<lambda>t. format z t ISO) (getPreviousPeriods z now0 ''monthly'' 5))"
    unfolding organizeData_names labels_of_periods p c ..
  have f: "map bucket_name (organizeData z now0 now1 node_data period)
       = map (\<lambda>t. format z t ISO) (getPreviousPeriods z now0 ''monthly'' 5)"
    if z: "changes z = []"
  proof -
    have "distinct (map (\<lambda>t. format z t ISO) (getPreviousPeriods z now0 ''monthly'' 5))"
      using periods_labels[OF z, of period now0] unfolding p c .
    then show ?thesis unfolding e by (rule firsts_distinct)
  qed
  show ?thesis using a b c p e f by blast
qed

text \<open>The amended C5 in UTC at the period \<^verbatim>\<open>custom\<close>.\<close>

theorem unknown_period_rules_witness:
  "getStartOfPeriod utcZone 37800000 ''custom'' = startOfMonth utcZone 37800000
   \<and> previous utcZone 37800000 ''custom'' = subMonths utcZone 37800000 1
   \<and> getPreviousPeriods utcZone 37800000 ''custom'' 5
       = getPreviousPeriods utcZone 37800000 ''monthly'' 5
   \<and> patternOf ''custom'' = ISO
   \<and> map bucket_name (organizeData utcZone 37800000 37800000 [] ''custom'')
       = map (\<lambda>t. format utcZone t ISO) (getPreviousPeriods utcZone 37800000 ''monthly'' 5)"
proof -
  have h: "''custom'' \<notin> {''hourly'', ''daily'', ''weekly'', ''monthly''}" by simp
  have z: "changes utcZone = []" by (simp add: utcZone_def)
  from unknown_period_rules[OF h, of utcZone 37800000 37800000 37800000 "[]"] z
  show ?thesis by blast
qed

end
